theory Spec2Isabelle
  imports Complex_Main "HOL-Library.Word"
begin

unbundle bit_operations_syntax

section \<open>Wire format\<close>

text \<open>
  Both programs share the packet header \<^verbatim>\<open>pkt_hdr_t\<close> (packed, 7 bytes: type, seq, len)
  and the acknowledgment record \<^verbatim>\<open>ack_payload_t\<close> (packed, 12 bytes: cum_ack, sack_mask).
  Multi-byte fields are big-endian on the wire; \<^verbatim>\<open>ntohs\<close>, \<^verbatim>\<open>ntohl\<close> and \<^verbatim>\<open>ntohll\<close> of the
  bytes found in a buffer are the big-endian value of those bytes.
\<close>

type_synonym byte = "8 word"
type_synonym u16 = "16 word"
type_synonym u32 = "32 word"
type_synonym u64 = "64 word"

definition HDR :: nat where
  "HDR = 7"

definition ACKLEN :: nat where
  "ACKLEN = 12"

definition PKT_DATA :: byte where "PKT_DATA = 0x01"
definition PKT_START :: byte where "PKT_START = 0x02"
definition PKT_END :: byte where "PKT_END = 0x03"
definition PKT_ACK :: byte where "PKT_ACK = 0x10"

definition be_nat :: "byte list \<Rightarrow> nat" where
  "be_nat bs = foldl (\<lambda>a b. a * 256 + unat b) 0 bs"

definition field :: "nat \<Rightarrow> nat \<Rightarrow> byte list \<Rightarrow> byte list" where
  "field off w buf = take w (drop off buf)"

definition hdr_type :: "byte list \<Rightarrow> byte" where
  "hdr_type buf = buf ! 0"

definition hdr_seq :: "byte list \<Rightarrow> u32" where
  "hdr_seq buf = of_nat (be_nat (field 1 4 buf))"

definition hdr_len :: "byte list \<Rightarrow> u16" where
  "hdr_len buf = of_nat (be_nat (field 5 2 buf))"

text \<open>
  \<^verbatim>\<open>recvfrom(sock, buf, cap, ...)\<close> and \<^verbatim>\<open>recv\<close>: the datagram overwrites the first bytes of
  the buffer, at most \<^verbatim>\<open>cap\<close> of them (the excess of a longer datagram is dropped), and
  the rest of the buffer keeps what it held. The result is the number of bytes stored
  together with the buffer.
\<close>

definition recv_into :: "nat \<Rightarrow> byte list \<Rightarrow> byte list \<Rightarrow> nat \<times> byte list" where
  "recv_into cap buf d = (let n = min (length d) cap in (n, take n d @ drop n buf))"

section \<open>Segmentation\<close>

text \<open>
  \<^verbatim>\<open>total_segs = (uint32_t)((total_bytes + payload_max - 1) / payload_max)\<close>: the sum and
  the quotient are 64-bit, the result is cut to 32 bits. \<^verbatim>\<open>payload_max\<close> is a positive
  \<^verbatim>\<open>int\<close>, here a natural number.
\<close>

definition total_segs_of :: "u64 \<Rightarrow> nat \<Rightarrow> u32" where
  "total_segs_of tb P = ucast ((tb + of_nat P - 1) div of_nat P)"

definition seg_offset :: "nat \<Rightarrow> u32 \<Rightarrow> u64" where
  "seg_offset P s = ucast (s - 1) * of_nat P"

definition seg_len :: "u64 \<Rightarrow> nat \<Rightarrow> u32 \<Rightarrow> u16" where
  "seg_len tb P s = ucast (min (of_nat P) (tb - seg_offset P s))"

definition payload_max_of :: "int \<Rightarrow> int" where
  "payload_max_of mtu = (let p = mtu - 28 - 7 in if p < 512 then 512 else p)"

section \<open>Receiver\<close>

text \<open>
  The variables of the receiver's \<^verbatim>\<open>main\<close> that live across iterations of its loop.
  \<^verbatim>\<open>have_bits\<close> is the array \<^verbatim>\<open>have\<close>, the \<^verbatim>\<open>calloc\<close>ed \<^verbatim>\<open>total_segs + 1\<close> flags (empty before START);
  \<^verbatim>\<open>sink\<close> is the contents of the output file mapped at \<^verbatim>\<open>fm.base\<close>, \<^verbatim>\<open>fm.size\<close> bytes.
\<close>

record rstate =
  expected_total :: u64
  received :: u64
  total_segs :: u32
  cum_ack :: u32
  have_bits :: "bool list"
  sink :: "byte list"
  started :: bool
  finished :: bool

definition rx_init :: rstate where
  "rx_init = \<lparr>expected_total = 0, received = 0, total_segs = 0, cum_ack = 0,
     have_bits = [], sink = [], started = False, finished = False\<rparr>"

type_synonym peer = nat

datatype rx_out = NoResp | Ack peer u32 u64

datatype rx_res = Died | Fault | Next rstate "byte list" rx_out

text \<open>
  \<^verbatim>\<open>memcpy(fm.base + off, src, len)\<close> on the mapped file, for a range that lies within
  the \<^verbatim>\<open>fm.size\<close> bytes of the mapping (the receiver below calls it for such ranges
  only).
\<close>

fun write_at :: "byte list \<Rightarrow> nat \<Rightarrow> byte list \<Rightarrow> byte list" where
  "write_at mem off [] = mem"
| "write_at mem off (b # bs) = write_at (mem[off := b]) (Suc off) bs"

text \<open>\<^verbatim>\<open>while (cum_ack < total_segs && have[cum_ack + 1]) cum_ack++;\<close>\<close>

function advance_cum :: "bool list \<Rightarrow> u32 \<Rightarrow> u32 \<Rightarrow> u32" where
  "advance_cum hv N c = (if c < N \<and> hv ! unat (c + 1) then advance_cum hv N (c + 1) else c)"
  by pat_completeness auto
termination
proof (relation "measure (\<lambda>(hv, N, c). unat N - unat c)")
  show "wf (measure (\<lambda>(hv, N, c). unat N - unat c))"
    by simp
next
  fix hv :: "bool list" and N c :: u32
  assume "c < N \<and> hv ! unat (c + 1)"
  then have "c < N"
    by simp
  then have "unat N - unat (c + 1) < unat N - unat c"
    by unat_arith
  then show "((hv, N, c + 1), (hv, N, c)) \<in> measure (\<lambda>(hv, N, c). unat N - unat c)"
    by simp
qed

declare advance_cum.simps [simp del]

text \<open>
  The SACK mask: \<^verbatim>\<open>for (i = 0; i < 64; ++i) { s = cum_ack + 1 + i;
  if (s <= total_segs && have[s]) mask |= 1ULL << i; }\<close>, with \<^verbatim>\<open>s\<close> a 32-bit value.
\<close>

definition sack_bit :: "bool list \<Rightarrow> u32 \<Rightarrow> u32 \<Rightarrow> nat \<Rightarrow> u64 \<Rightarrow> u64" where
  "sack_bit hv N c i m =
     (let s = c + 1 + of_nat i in if s \<le> N \<and> hv ! unat s then m OR push_bit i 1 else m)"

definition sack_mask :: "bool list \<Rightarrow> u32 \<Rightarrow> u32 \<Rightarrow> u64" where
  "sack_mask hv N c = fold (sack_bit hv N c) [0..<64] 0"

definition rx_start :: "nat \<Rightarrow> rstate \<Rightarrow> byte list \<Rightarrow> rstate option" where
  "rx_start P st buf =
     (let tb = (of_nat (be_nat (field HDR 8 buf)) :: u64);
          segs = total_segs_of tb P
      in if tb = 0 then None
         else Some (st\<lparr>expected_total := tb, total_segs := segs,
                       have_bits := replicate (unat segs + 1) False,
                       sink := replicate (unat tb) 0,
                       started := True, cum_ack := 0\<rparr>))"

definition rx_store :: "nat \<Rightarrow> rstate \<Rightarrow> byte list \<Rightarrow> u32 \<Rightarrow> u16 \<Rightarrow> rstate" where
  "rx_store P st buf seq len =
     (let off = seg_offset P seq;
          st1 = st\<lparr>sink := write_at (sink st) (unat off) (field HDR (unat len) buf),
                   received := received st + ucast len,
                   have_bits := (have_bits st)[unat seq := True]\<rparr>
      in st1\<lparr>cum_ack := advance_cum (have_bits st1) (total_segs st1) (cum_ack st1)\<rparr>)"

definition rx_ack :: "peer \<Rightarrow> rstate \<Rightarrow> rx_out" where
  "rx_ack p st = Ack p (cum_ack st) (sack_mask (have_bits st) (total_segs st) (cum_ack st))"

text \<open>
  \<^verbatim>\<open>htons\<close>, \<^verbatim>\<open>htonl\<close> and \<^verbatim>\<open>htonll\<close>: the \<^verbatim>\<open>w\<close> bytes of a value in network order, the
  most significant first.
\<close>

fun be_bytes :: "nat \<Rightarrow> nat \<Rightarrow> byte list" where
  "be_bytes 0 n = []"
| "be_bytes (Suc w) n = be_bytes w (n div 256) @ [of_nat n]"

text \<open>
  \<^verbatim>\<open>send_ack_sack\<close>, and the ACK built in the START branch: the datagram of 19 bytes that
  carries \<^verbatim>\<open>Ack p cum m\<close> to the peer, a header with type ACK, sequence number 0 and
  length 12 followed by \<^verbatim>\<open>cum_ack\<close> and the mask in network order.
\<close>

definition ack_packet :: "u32 \<Rightarrow> u64 \<Rightarrow> byte list" where
  "ack_packet cum m =
     PKT_ACK # be_bytes 4 0 @ be_bytes 2 ACKLEN @ be_bytes 4 (unat cum) @ be_bytes 8 (unat m)"

text \<open>
  The handling of a datagram that holds a header at least, by the header fields read
  from the buffer. \<^verbatim>\<open>Died\<close> is \<^verbatim>\<open>die("mmap output")\<close>, which a START announcing zero
  bytes runs into (\<^verbatim>\<open>mmap\<close> of length 0 fails); the other calls to the system
  (\<^verbatim>\<open>calloc\<close>, \<^verbatim>\<open>open\<close>, sizing the file) are taken to succeed. The program does not
  compare \<^verbatim>\<open>off + len\<close> with \<^verbatim>\<open>fm.size\<close> before the \<^verbatim>\<open>memcpy\<close>: \<^verbatim>\<open>Fault\<close> is a
  \<^verbatim>\<open>memcpy\<close> whose range passes the end of the mapping, a store outside the object for
  which C defines no behaviour.
\<close>

definition rx_packet :: "nat \<Rightarrow> rstate \<Rightarrow> byte list \<Rightarrow> peer \<Rightarrow> rx_res" where
  "rx_packet P st buf p =
     (let type = hdr_type buf; seq = hdr_seq buf; len = hdr_len buf
      in if type = PKT_START \<and> seq = 0 then
           (if \<not> started st then
              (if unat len \<noteq> 8 then Next st buf NoResp
               else case rx_start P st buf of
                      None \<Rightarrow> Died
                    | Some st' \<Rightarrow> Next st' buf (Ack p (cum_ack st') 0))
            else Next st buf (Ack p (cum_ack st) 0))
         else if \<not> started st then Next st buf NoResp
         else if type = PKT_DATA then
           (if seq = 0 \<or> seq > total_segs st then Next st buf NoResp
            else if \<not> have_bits st ! unat seq then
              (if unat len > P then Next st buf NoResp
               else if unat (seg_offset P seq) + unat len > length (sink st) then Fault
               else let st' = rx_store P st buf seq len in Next st' buf (rx_ack p st'))
            else Next st buf (rx_ack p st))
         else if type = PKT_END then
           Next (if cum_ack st = total_segs st then st\<lparr>finished := True\<rparr> else st) buf
             (rx_ack p st)
         else Next st buf NoResp)"

text \<open>
  One iteration of \<^verbatim>\<open>while (!finished)\<close>: the datagram \<^verbatim>\<open>snd pd\<close> from peer \<^verbatim>\<open>fst pd\<close> is
  received into the buffer of \<^verbatim>\<open>HDR + payload_max + 16\<close> bytes, of which \<^verbatim>\<open>recvfrom\<close>
  may fill \<^verbatim>\<open>HDR + payload_max\<close>, and handled unless it is shorter than a header.
\<close>

definition rx_step :: "nat \<Rightarrow> rstate \<Rightarrow> byte list \<Rightarrow> peer \<times> byte list \<Rightarrow> rx_res" where
  "rx_step P st buf0 pd =
     (let (n, buf) = recv_into (HDR + P) buf0 (snd pd)
      in if n < HDR then Next st buf NoResp else rx_packet P st buf (fst pd))"

text \<open>
  A run of the loop over the datagrams that arrive, from a state and a buffer: the
  state and buffer reached and the responses sent, or \<^verbatim>\<open>None\<close> when the process died
  or stored outside the mapping.
  The loop ends when \<^verbatim>\<open>finished\<close> is set; later datagrams are not read.
\<close>

fun rx_run :: "nat \<Rightarrow> rstate \<Rightarrow> byte list \<Rightarrow> (peer \<times> byte list) list
    \<Rightarrow> (rstate \<times> byte list \<times> rx_out list) option" where
  "rx_run P st buf [] = Some (st, buf, [])"
| "rx_run P st buf (pd # pds) =
     (if finished st then Some (st, buf, [])
      else case rx_step P st buf pd of
             Died \<Rightarrow> None
           | Fault \<Rightarrow> None
           | Next st' buf' out \<Rightarrow>
               (case rx_run P st' buf' pds of
                  None \<Rightarrow> None
                | Some (st'', buf'', outs) \<Rightarrow> Some (st'', buf'', out # outs)))"

section \<open>Sender\<close>

text \<open>
  The parameters fixed before the bulk loop (\<^verbatim>\<open>total_bytes\<close>, \<^verbatim>\<open>payload_max\<close>,
  \<^verbatim>\<open>total_segs\<close>, \<^verbatim>\<open>win\<close>, \<^verbatim>\<open>retries\<close>, \<^verbatim>\<open>rto_ms\<close>) and the variables the loop changes:
  the three \<^verbatim>\<open>calloc\<close>ed arrays of \<^verbatim>\<open>total_segs + 1\<close> entries, \<^verbatim>\<open>base\<close>,
  \<^verbatim>\<open>next_to_send\<close> and \<^verbatim>\<open>in_flight\<close>. \<^verbatim>\<open>sent_data\<close> lists the DATA packets handed to
  \<^verbatim>\<open>sendmsg\<close> (sequence number, offset, length), latest first. Time stamps are the
  seconds that \<^verbatim>\<open>now_s\<close> returns, as real numbers. The counters are \<^verbatim>\<open>int\<close>s that stay
  far below the range of the C type.
\<close>

record sconf =
  cfg_total_bytes :: u64
  cfg_payload_max :: nat
  cfg_total_segs :: u32
  cfg_win :: int
  cfg_retries :: int
  cfg_rto_ms :: int

record sstate =
  acked :: "bool list"
  sent_ts :: "real list"
  tx_cnt :: "int list"
  base :: u32
  next_to_send :: u32
  in_flight :: int
  sent_data :: "(u32 \<times> u64 \<times> u16) list"

text \<open>\<^verbatim>\<open>if (win < 1 || win > 256) win = DEFAULT_WIN;\<close>\<close>

definition clamp_win :: "int \<Rightarrow> int" where
  "clamp_win w = (if w < 1 \<or> w > 256 then 64 else w)"

definition mk_conf :: "u64 \<Rightarrow> int \<Rightarrow> int \<Rightarrow> int \<Rightarrow> int \<Rightarrow> sconf" where
  "mk_conf fsize mtu w r rto =
     (let P = nat (payload_max_of mtu)
      in \<lparr>cfg_total_bytes = fsize, cfg_payload_max = P, cfg_total_segs = total_segs_of fsize P,
          cfg_win = clamp_win w, cfg_retries = r, cfg_rto_ms = rto\<rparr>)"

definition s_init :: "sconf \<Rightarrow> sstate" where
  "s_init c = \<lparr>acked = replicate (unat (cfg_total_segs c) + 1) False,
     sent_ts = replicate (unat (cfg_total_segs c) + 1) 0,
     tx_cnt = replicate (unat (cfg_total_segs c) + 1) 0,
     base = 1, next_to_send = 1, in_flight = 0, sent_data = []\<rparr>"

text \<open>
  What one iteration of the bulk loop takes from outside: whether the \<^verbatim>\<open>sendmsg\<close> of a
  new segment succeeds and the time read after it, the bytes that \<^verbatim>\<open>abuf\<close> holds before
  \<^verbatim>\<open>recv\<close> (the array is not initialised), the datagram received (\<^verbatim>\<open>None\<close> when \<^verbatim>\<open>recv\<close>
  fails or times out), and the time read before the retransmission scan.
\<close>

record env =
  send_ok :: "u32 \<Rightarrow> bool"
  send_time :: "u32 \<Rightarrow> real"
  abuf0 :: "byte list"
  rcvd :: "byte list option"
  now :: real

definition data_pkt :: "sconf \<Rightarrow> u32 \<Rightarrow> u32 \<times> u64 \<times> u16" where
  "data_pkt c s = (s, seg_offset (cfg_payload_max c) s,
     seg_len (cfg_total_bytes c) (cfg_payload_max c) s)"

text \<open>The body of the loop that sends new segments (step 1).\<close>

definition transmit_new :: "sconf \<Rightarrow> env \<Rightarrow> sstate \<Rightarrow> sstate" where
  "transmit_new c e st =
     (let s = next_to_send st;
          st0 = st\<lparr>sent_data := data_pkt c s # sent_data st\<rparr>;
          st1 = (if send_ok e s then
                   st0\<lparr>in_flight := (if tx_cnt st ! unat s = 0 then in_flight st + 1
                                       else in_flight st),
                       tx_cnt := (tx_cnt st)[unat s := tx_cnt st ! unat s + 1],
                       sent_ts := (sent_ts st)[unat s := send_time e s]\<rparr>
                 else st0)
      in st1\<lparr>next_to_send := s + 1\<rparr>)"

text \<open>
  \<^verbatim>\<open>while (next_to_send <= total_segs && (int)(next_to_send - base) < win) { ... }\<close>.
  The loops of the sender count in 32 bits; where the counter can wrap they need not
  end, and \<^verbatim>\<open>None\<close> stands for a loop that does not return.
\<close>

partial_function (option) send_new :: "sconf \<Rightarrow> env \<Rightarrow> sstate \<Rightarrow> sstate option" where
  "send_new c e st =
     (if next_to_send st \<le> cfg_total_segs c \<and> sint (next_to_send st - base st) < cfg_win c
      then send_new c e (transmit_new c e st)
      else Some st)"

text \<open>\<^verbatim>\<open>if (!acked[s]) { acked[s] = 1; in_flight -= (tx_cnt[s] > 0); }\<close>\<close>

definition mark_acked :: "u32 \<Rightarrow> sstate \<Rightarrow> sstate" where
  "mark_acked s st =
     (if \<not> acked st ! unat s
      then st\<lparr>acked := (acked st)[unat s := True],
              in_flight := in_flight st - (if tx_cnt st ! unat s > 0 then 1 else 0)\<rparr>
      else st)"

text \<open>\<^verbatim>\<open>for (s = base; s <= cum && s <= total_segs; ++s) ...\<close>, from the counter \<^verbatim>\<open>s\<close> on.\<close>

partial_function (option) ack_upto :: "u32 \<Rightarrow> u32 \<Rightarrow> u32 \<Rightarrow> sstate \<Rightarrow> sstate option" where
  "ack_upto N cum s st =
     (if s \<le> cum \<and> s \<le> N then ack_upto N cum (s + 1) (mark_acked s st) else Some st)"

text \<open>\<^verbatim>\<open>while (base <= total_segs && acked[base]) base++;\<close>\<close>

partial_function (option) slide_base :: "u32 \<Rightarrow> sstate \<Rightarrow> sstate option" where
  "slide_base N st =
     (if base st \<le> N \<and> acked st ! unat (base st)
      then slide_base N (st\<lparr>base := base st + 1\<rparr>)
      else Some st)"

text \<open>
  \<^verbatim>\<open>for (i = 0; i < 64; ++i) if (mask & (1ULL << i)) { s = cum + 1 + i;
  if (s <= total_segs && !acked[s]) { acked[s] = 1; if (tx_cnt[s] > 0) in_flight--; } }\<close>
\<close>

definition ack_bit :: "u32 \<Rightarrow> u32 \<Rightarrow> u64 \<Rightarrow> nat \<Rightarrow> sstate \<Rightarrow> sstate" where
  "ack_bit N cum m i st =
     (if m AND push_bit i 1 \<noteq> 0
      then let s = cum + 1 + of_nat i
           in if s \<le> N \<and> \<not> acked st ! unat s
              then st\<lparr>acked := (acked st)[unat s := True],
                      in_flight := (if tx_cnt st ! unat s > 0 then in_flight st - 1
                                    else in_flight st)\<rparr>
              else st
      else st)"

definition ack_masked :: "u32 \<Rightarrow> u32 \<Rightarrow> u64 \<Rightarrow> sstate \<Rightarrow> sstate" where
  "ack_masked N cum m st = fold (ack_bit N cum m) [0..<64] st"

definition process_ack :: "u32 \<Rightarrow> u32 \<Rightarrow> u64 \<Rightarrow> sstate \<Rightarrow> sstate option" where
  "process_ack N cum m st =
     (case ack_upto N cum (base st) st of
        None \<Rightarrow> None
      | Some st1 \<Rightarrow>
          (case slide_base N st1 of
             None \<Rightarrow> None
           | Some st2 \<Rightarrow> slide_base N (ack_masked N cum m st2)))"

definition ack_cum_field :: "byte list \<Rightarrow> u32" where
  "ack_cum_field abuf = of_nat (be_nat (field HDR 4 abuf))"

definition ack_mask_field :: "byte list \<Rightarrow> u64" where
  "ack_mask_field abuf = of_nat (be_nat (field (HDR + 4) 8 abuf))"

text \<open>
  Step 2: \<^verbatim>\<open>r = recv(sock, abuf, sizeof(abuf), 0)\<close> with \<^verbatim>\<open>abuf\<close> of 128 bytes, then the
  checks on \<^verbatim>\<open>r\<close>, the type and the length field, and the processing of the record
  copied from \<^verbatim>\<open>abuf + 7\<close>.
\<close>

definition sender_recv :: "sconf \<Rightarrow> env \<Rightarrow> sstate \<Rightarrow> sstate option" where
  "sender_recv c e st =
     (case rcvd e of
        None \<Rightarrow> Some st
      | Some d \<Rightarrow>
          let (r, abuf) = recv_into 128 (abuf0 e) d
          in if r \<ge> HDR then
               (if hdr_type abuf = PKT_ACK \<and> unat (hdr_len abuf) = ACKLEN
                then process_ack (cfg_total_segs c) (ack_cum_field abuf) (ack_mask_field abuf) st
                else Some st)
             else Some st)"

datatype s_res = Failed sstate | Running sstate

definition resend :: "sconf \<Rightarrow> real \<Rightarrow> u32 \<Rightarrow> sstate \<Rightarrow> sstate" where
  "resend c t s st =
     st\<lparr>sent_data := data_pkt c s # sent_data st,
        tx_cnt := (tx_cnt st)[unat s := tx_cnt st ! unat s + 1],
        sent_ts := (sent_ts st)[unat s := t]\<rparr>"

lemma next_to_send_resend: "next_to_send (resend c t s st) = next_to_send st"
  by (simp add: resend_def)

text \<open>
  \<^verbatim>\<open>now - sent_ts[s] >= (double)rto_ms/1000.0\<close> is computed in \<^verbatim>\<open>double\<close> arithmetic: the
  difference of the two time stamps and the quotient (of the exact \<^verbatim>\<open>(double)rto_ms\<close> by
  1000) are each rounded to a \<^verbatim>\<open>double\<close>, and the two results are compared. The time
  stamps are the \<^verbatim>\<open>double\<close>s that \<^verbatim>\<open>now_s\<close> returned, taken as the real numbers they
  denote. The rounding \<^verbatim>\<open>rnd\<close> of the platform's arithmetic (to the nearest \<^verbatim>\<open>double\<close>
  under IEEE 754) is a parameter of the model of the sender: what is shown below
  holds for every rounding.
\<close>

definition timed_out :: "(real \<Rightarrow> real) \<Rightarrow> sconf \<Rightarrow> real \<Rightarrow> real \<Rightarrow> bool" where
  "timed_out rnd c t ts \<longleftrightarrow> rnd (t - ts) \<ge> rnd (real_of_int (cfg_rto_ms c) / 1000)"

text \<open>
  Step 3: \<^verbatim>\<open>for (s = base; s < next_to_send; ++s)\<close>, from the counter \<^verbatim>\<open>s\<close> on.
  \<^verbatim>\<open>Failed\<close> is \<^verbatim>\<open>exit(1)\<close>, with the state the process leaves behind.
\<close>

function retransmit :: "(real \<Rightarrow> real) \<Rightarrow> sconf \<Rightarrow> real \<Rightarrow> u32 \<Rightarrow> sstate \<Rightarrow> s_res" where
  "retransmit rnd c t s st =
     (if s < next_to_send st then
        (if s = 0 \<or> s > cfg_total_segs c then retransmit rnd c t (s + 1) st
         else if acked st ! unat s then retransmit rnd c t (s + 1) st
         else if tx_cnt st ! unat s \<ge> cfg_retries c then Failed st
         else if timed_out rnd c t (sent_ts st ! unat s)
           then retransmit rnd c t (s + 1) (resend c t s st)
         else retransmit rnd c t (s + 1) st)
      else Running st)"
  by pat_completeness auto
termination
proof (relation "measure (\<lambda>(rnd, c, t, s, st). unat (next_to_send st) - unat s)")
  show "wf (measure (\<lambda>(rnd, c, t, s, st). unat (next_to_send st) - unat s))"
    by simp
next
  fix s :: u32 and st :: sstate
  assume "s < next_to_send st"
  then have dec: "unat (next_to_send st) - unat (s + 1) < unat (next_to_send st) - unat s"
    by unat_arith
  fix rnd :: "real \<Rightarrow> real" and c :: sconf and t :: real
  show "((rnd, c, t, s + 1, st), (rnd, c, t, s, st))
      \<in> measure (\<lambda>(rnd, c, t, s, st). unat (next_to_send st) - unat s)"
    using dec by simp
  show "((rnd, c, t, s + 1, st), (rnd, c, t, s, st))
      \<in> measure (\<lambda>(rnd, c, t, s, st). unat (next_to_send st) - unat s)"
    using dec by simp
  show "((rnd, c, t, s + 1, resend c t s st), (rnd, c, t, s, st))
      \<in> measure (\<lambda>(rnd, c, t, s, st). unat (next_to_send st) - unat s)"
    using dec by (simp add: next_to_send_resend)
  show "((rnd, c, t, s + 1, st), (rnd, c, t, s, st))
      \<in> measure (\<lambda>(rnd, c, t, s, st). unat (next_to_send st) - unat s)"
    using dec by simp
qed

declare retransmit.simps [simp del]

text \<open>One iteration of \<^verbatim>\<open>while (base <= total_segs)\<close>: steps 1, 2 and 3 in order.\<close>

definition sender_iter :: "(real \<Rightarrow> real) \<Rightarrow> sconf \<Rightarrow> env \<Rightarrow> sstate \<Rightarrow> s_res option" where
  "sender_iter rnd c e st =
     (case send_new c e st of
        None \<Rightarrow> None
      | Some st1 \<Rightarrow>
          (case sender_recv c e st1 of
             None \<Rightarrow> None
           | Some st2 \<Rightarrow> Some (retransmit rnd c (now e) (base st2) st2)))"

text \<open>
  The bulk loop over the iterations that the given inputs allow. \<^verbatim>\<open>Exit1\<close>: the process
  left with \<^verbatim>\<open>exit(1)\<close>; \<^verbatim>\<open>AtEnd\<close>: the loop has ended (\<^verbatim>\<open>base > total_segs\<close>) and END is
  transmitted next; \<^verbatim>\<open>InBulk\<close>: the loop is still running when the inputs are used up.
\<close>

datatype run_res = Exit1 sstate | AtEnd sstate | InBulk sstate

fun sender_run :: "(real \<Rightarrow> real) \<Rightarrow> sconf \<Rightarrow> sstate \<Rightarrow> env list \<Rightarrow> run_res option" where
  "sender_run rnd c st [] = Some (if base st \<le> cfg_total_segs c then InBulk st else AtEnd st)"
| "sender_run rnd c st (e # es) =
     (if base st \<le> cfg_total_segs c then
        (case sender_iter rnd c e st of
           None \<Rightarrow> None
         | Some (Failed st') \<Rightarrow> Some (Exit1 st')
         | Some (Running st') \<Rightarrow> sender_run rnd c st' es)
      else Some (AtEnd st))"

section \<open>Stated properties\<close>



text \<open>
  \<^verbatim>\<open>b\<close> is the least segment number from 1 on that is not marked in \<^verbatim>\<open>ak\<close>, or \<^verbatim>\<open>N + 1\<close>
  when all the segments \<^verbatim>\<open>1..N\<close> are marked.
\<close>

definition base_is_least :: "bool list \<Rightarrow> nat \<Rightarrow> nat \<Rightarrow> bool" where
  "base_is_least ak N b \<longleftrightarrow>
     1 \<le> b \<and> b \<le> N + 1 \<and> (\<forall>k. 1 \<le> k \<and> k < b \<longrightarrow> ak ! k) \<and> (b \<le> N \<longrightarrow> \<not> ak ! b)"

text \<open>
  What the sender's \<^verbatim>\<open>acked\<close> and \<^verbatim>\<open>base\<close> satisfy throughout the bulk loop (shown
  below): the array has its \<^verbatim>\<open>total_segs + 1\<close> entries and \<^verbatim>\<open>base\<close> is the first segment
  not acknowledged.
\<close>

definition ack_inv :: "u32 \<Rightarrow> sstate \<Rightarrow> bool" where
  "ack_inv N st \<longleftrightarrow>
     length (acked st) = unat N + 1 \<and> base_is_least (acked st) (unat N) (unat (base st))"

text \<open>
  What the sender's counters satisfy throughout the bulk loop when \<^verbatim>\<open>retries\<close> is at
  least 1 (shown below): a segment not yet reached by \<^verbatim>\<open>next_to_send\<close> has not been
  transmitted, and no segment has been transmitted more than \<^verbatim>\<open>retries\<close> times.
\<close>

definition tx_inv :: "sconf \<Rightarrow> sstate \<Rightarrow> bool" where
  "tx_inv c st \<longleftrightarrow>
     length (tx_cnt st) = unat (cfg_total_segs c) + 1 \<and>
     1 \<le> unat (next_to_send st) \<and> unat (next_to_send st) \<le> unat (cfg_total_segs c) + 1 \<and>
     (\<forall>k. unat (next_to_send st) \<le> k \<and> k \<le> unat (cfg_total_segs c) \<longrightarrow> tx_cnt st ! k = 0) \<and>
     (\<forall>k. k \<le> unat (cfg_total_segs c) \<longrightarrow> 0 \<le> tx_cnt st ! k \<and> tx_cnt st ! k \<le> cfg_retries c)"

text \<open>
  The state in which an iteration, and a result of the bulk loop, leaves the sender.
\<close>

fun iter_state :: "s_res \<Rightarrow> sstate" where
  "iter_state (Failed st) = st"
| "iter_state (Running st) = st"

fun final_state :: "run_res \<Rightarrow> sstate" where
  "final_state (Exit1 st) = st"
| "final_state (AtEnd st) = st"
| "final_state (InBulk st) = st"

text \<open>
  An iteration in which every \<^verbatim>\<open>sendmsg\<close> of a new segment succeeds and the ACK
  processed, if any, acknowledges only segments below \<^verbatim>\<open>next_to_send\<close>, those handed to
  \<^verbatim>\<open>sendmsg\<close> before; and a run of such iterations.
\<close>

definition fair_iter :: "sconf \<Rightarrow> env \<Rightarrow> sstate \<Rightarrow> bool" where
  "fair_iter c e st \<longleftrightarrow>
     (\<forall>s. send_ok e s) \<and>
     (case send_new c e st of
        None \<Rightarrow> True
      | Some st1 \<Rightarrow>
          (case sender_recv c e st1 of
             None \<Rightarrow> True
           | Some st2 \<Rightarrow>
               (\<forall>k. 1 \<le> k \<and> k \<le> unat (cfg_total_segs c) \<and> acked st2 ! k
                  \<longrightarrow> acked st1 ! k \<or> k < unat (next_to_send st1))))"

text \<open>
  What holds along such a run (shown below): only segments below \<^verbatim>\<open>next_to_send\<close> are
  acknowledged, and each of them has been transmitted.
\<close>

definition sent_inv :: "sconf \<Rightarrow> sstate \<Rightarrow> bool" where
  "sent_inv c st \<longleftrightarrow>
     (\<forall>k. 1 \<le> k \<and> k \<le> unat (cfg_total_segs c) \<and> acked st ! k
        \<longrightarrow> k < unat (next_to_send st)) \<and>
     (\<forall>k. 1 \<le> k \<and> k < unat (next_to_send st) \<longrightarrow> 1 \<le> tx_cnt st ! k)"

fun fair_run :: "(real \<Rightarrow> real) \<Rightarrow> sconf \<Rightarrow> sstate \<Rightarrow> env list \<Rightarrow> bool" where
  "fair_run rnd c st [] = True"
| "fair_run rnd c st (e # es) =
     (if base st \<le> cfg_total_segs c then
        fair_iter c e st \<and>
        (case sender_iter rnd c e st of
           Some (Running st') \<Rightarrow> fair_run rnd c st' es
         | _ \<Rightarrow> True)
      else True)"

subsection \<open>An example session\<close>

text \<open>
  A receiver with \<^verbatim>\<open>payload_max = 512\<close> (a buffer of 535 bytes), a START that announces
  1024 bytes (two segments), DATA packets that consist of a header only, and the
  state after the START has been accepted. A sender of 1024 bytes with an MTU of 547
  (\<^verbatim>\<open>payload_max = 512\<close>), a window of 1, 50 tries and a timeout of 400 ms; inputs of an
  iteration in which every \<^verbatim>\<open>sendmsg\<close> succeeds and nothing is received; and ACK
  datagrams with a given \<^verbatim>\<open>cum_ack\<close> and mask.
\<close>

definition demo_buf :: "byte list" where
  "demo_buf = replicate 535 0"

definition demo_start :: "byte list" where
  "demo_start = [2, 0, 0, 0, 0, 0, 8, 0, 0, 0, 0, 0, 0, 4, 0]"

definition demo_data :: "byte \<Rightarrow> byte \<Rightarrow> byte \<Rightarrow> byte list" where
  "demo_data s lh ll = [1, 0, 0, 0, s, lh, ll]"

definition demo_conf :: sconf where
  "demo_conf = mk_conf 1024 547 1 50 400"

definition demo_env :: env where
  "demo_env = \<lparr>send_ok = (\<lambda>s. True), send_time = (\<lambda>s. 1), abuf0 = replicate 128 0,
     rcvd = None, now = 1\<rparr>"

definition demo_ack :: "byte \<Rightarrow> byte \<Rightarrow> byte list" where
  "demo_ack c m = [16, 0, 0, 0, 0, 0, 12, 0, 0, 0, c, 0, 0, 0, 0, 0, 0, 0, m]"

definition demo_st :: rstate where
  "demo_st = \<lparr>expected_total = 1024, received = 0, total_segs = 2, cum_ack = 0,
     have_bits = [False, False, False], sink = replicate 1024 0, started = True,
     finished = False\<rparr>"

subsection \<open>A second example session\<close>






text \<open>
  A sender of 1082 bytes started with \<^verbatim>\<open>--mtu 576\<close> (\<^verbatim>\<open>payload_max = 541\<close>, two
  segments) and a timeout of 400 ms, for a given window and number of tries.
\<close>

definition ex_conf :: "int \<Rightarrow> int \<Rightarrow> sconf" where
  "ex_conf w r = mk_conf 1082 576 w r 400"

text \<open>
  The state of that sender after it has transmitted segment 1 with a window of 1, and
  the inputs of two iterations in which the ACKs for segment 1 and then for segment 2
  arrive. The runs shown below are stated for the rounding that leaves every number
  as it is: their scans test a timeout only once, for a difference of one second
  against 0.4 seconds, where no rounding changes the outcome.
\<close>

definition no_rounding :: "real \<Rightarrow> real" where
  "no_rounding x = x"

definition ex_sent1 :: sstate where
  "ex_sent1 = \<lparr>acked = [False, False, False], sent_ts = [0, 1, 0], tx_cnt = [0, 1, 0],
     base = 1, next_to_send = 2, in_flight = 1, sent_data = [(1, 0, 541)]\<rparr>"

definition ex_acks :: "env list" where
  "ex_acks = [demo_env\<lparr>rcvd := Some (ack_packet 1 0)\<rparr>, demo_env\<lparr>rcvd := Some (ack_packet 2 0)\<rparr>]"

section \<open>Receiving into the buffer\<close>


lemma nth_write_at:
  "j < length mem \<Longrightarrow> write_at mem off bs ! j
     = (if off \<le> j \<and> j < off + length bs then bs ! (j - off) else mem ! j)"
proof (induction bs arbitrary: mem off)
  case Nil
  then show ?case by auto
next
  case (Cons b bs)
  have "write_at (mem[off := b]) (Suc off) bs ! j
     = (if Suc off \<le> j \<and> j < Suc off + length bs then bs ! (j - Suc off) else mem[off := b] ! j)"
    using Cons.prems by (intro Cons.IH) simp
  then show ?case
    using Cons.prems by (auto simp add: nth_list_update nth_Cons' Suc_diff_Suc not_less_eq_eq)
qed

declare write_at.simps [simp del]

lemma recv_into_n: "fst (recv_into cap buf d) = min (length d) cap"
  by (simp add: recv_into_def Let_def)

lemma recv_into_buf: "snd (recv_into cap buf d) = take (min (length d) cap) d @ drop (min (length d) cap) buf"
  by (simp add: recv_into_def Let_def)

lemma field_recv:
  assumes "off + w \<le> length d" "off + w \<le> cap"
  shows "field off w (snd (recv_into cap buf d)) = field off w d"
proof -
  let ?n = "min (length d) cap"
  have n: "off + w \<le> ?n"
    using assms by simp
  have "take w (drop off (take ?n d @ drop ?n buf)) = take w (drop off (take ?n d))"
    using n by simp
  also have "\<dots> = take w (drop off d)"
  proof -
    have "min w (?n - off) = w"
      using n by arith
    then show ?thesis
      by (simp add: drop_take)
  qed
  finally show ?thesis
    by (simp add: field_def recv_into_buf)
qed

lemma hdr_recv:
  assumes "HDR \<le> length d"
  shows "hdr_type (snd (recv_into (HDR + P) buf d)) = hdr_type d"
    and "hdr_seq (snd (recv_into (HDR + P) buf d)) = hdr_seq d"
    and "hdr_len (snd (recv_into (HDR + P) buf d)) = hdr_len d"
    and "HDR \<le> fst (recv_into (HDR + P) buf d)"
proof -
  have "d \<noteq> []"
    using assms by (cases d) (simp_all add: HDR_def)
  then have "(take (min (length d) (HDR + P)) d @ drop (min (length d) (HDR + P)) buf) ! 0 = d ! 0"
    by (simp add: nth_append HDR_def)
  then show "hdr_type (snd (recv_into (HDR + P) buf d)) = hdr_type d"
    by (simp add: hdr_type_def recv_into_buf)
  show "hdr_seq (snd (recv_into (HDR + P) buf d)) = hdr_seq d"
    using assms by (simp add: hdr_seq_def field_recv HDR_def)
  show "hdr_len (snd (recv_into (HDR + P) buf d)) = hdr_len d"
    using assms by (simp add: hdr_len_def field_recv HDR_def)
  show "HDR \<le> fst (recv_into (HDR + P) buf d)"
    using assms by (simp add: recv_into_n)
qed

lemma rx_step_long:
  assumes "HDR \<le> length d"
  shows "rx_step P st buf0 (p, d) = rx_packet P st (snd (recv_into (HDR + P) buf0 d)) p"
proof -
  obtain n b where nb: "recv_into (HDR + P) buf0 d = (n, b)"
    by (cases "recv_into (HDR + P) buf0 d")
  have "\<not> n < HDR"
    using hdr_recv(4)[OF assms, of P buf0] nb by simp
  then show ?thesis
    by (simp add: rx_step_def nb)
qed

lemma rx_step_short:
  assumes "length d < HDR"
  shows "rx_step P st buf0 (p, d) = Next st (snd (recv_into (HDR + P) buf0 d)) NoResp"
proof -
  obtain n b where nb: "recv_into (HDR + P) buf0 d = (n, b)"
    by (cases "recv_into (HDR + P) buf0 d")
  have "n < HDR"
    using recv_into_n[of "HDR + P" buf0 d] nb assms by simp
  then show ?thesis
    by (simp add: rx_step_def nb)
qed

lemma rx_packet_idle:
  assumes "\<not> started st" and "hdr_type buf \<noteq> PKT_START \<or> hdr_seq buf \<noteq> 0"
  shows "rx_packet P st buf p = Next st buf NoResp"
  using assms by (auto simp add: rx_packet_def)

section \<open>The receiver, case by case\<close>

lemma unat_u32_bound: "unat (w :: u32) < 2 ^ 32"
  using unsigned_less[of w, where 'a = nat] by simp

lemma unat_ucast_32_64: "unat (ucast (w :: u32) :: u64) = unat w"
proof -
  have "unat w < (2 :: nat) ^ 32"
    by (rule unat_u32_bound)
  also have "(2 :: nat) ^ 32 < 2 ^ 64"
    by simp
  finally show ?thesis
    by (simp add: unsigned_ucast_eq take_bit_nat_eq_self)
qed

lemma unat_pred: "(s :: u32) \<noteq> 0 \<Longrightarrow> unat (s - 1) = unat s - 1"
  by (simp add: unat_minus_one)

lemma unat_seg_offset:
  assumes "s \<noteq> 0" and "P < 2 ^ 31"
  shows "unat (seg_offset P s) = (unat s - 1) * P"
proof -
  have a: "unat (ucast (s - 1) :: u64) = unat s - 1"
    using assms(1) by (simp add: unat_ucast_32_64 unat_pred)
  have "P < (2 :: nat) ^ 31"
    by (rule assms(2))
  also have "(2 :: nat) ^ 31 < 2 ^ 64"
    by simp
  finally have b: "unat (of_nat P :: u64) = P"
    by (simp add: unat_of_nat)
  have "unat s - 1 < 2 ^ 32"
    using unat_u32_bound[of s] by simp
  then have "(unat s - 1) * P < 2 ^ 32 * 2 ^ 31"
    using assms(2) by (intro mult_strict_mono) simp_all
  then have c: "(unat s - 1) * P < 2 ^ 64"
    by simp
  have "unat (seg_offset P s) = ((unat s - 1) * P) mod 2 ^ 64"
    unfolding seg_offset_def by (simp only: unat_mult_lem unat_word_ariths a b) simp
  then show ?thesis
    using c by simp
qed

lemma pkt_types_distinct:
  "PKT_DATA \<noteq> PKT_START" "PKT_END \<noteq> PKT_START" "PKT_END \<noteq> PKT_DATA"
  by (simp_all add: PKT_DATA_def PKT_START_def PKT_END_def)

lemma rx_packet_data_range:
  assumes "hdr_type buf = PKT_DATA" and "hdr_seq buf = 0 \<or> hdr_seq buf > total_segs st"
  shows "rx_packet P st buf p = Next st buf NoResp"
proof (cases "started st")
  case True
  then show ?thesis
    using assms by (simp add: rx_packet_def pkt_types_distinct Let_def)
next
  case False
  then show ?thesis
    using assms(1) by (simp add: rx_packet_def pkt_types_distinct Let_def)
qed

lemma rx_packet_data_big:
  assumes "hdr_type buf = PKT_DATA" and "\<not> have_bits st ! unat (hdr_seq buf)"
    and "P < unat (hdr_len buf)"
  shows "rx_packet P st buf p = Next st buf NoResp"
  using assms by (simp add: rx_packet_def pkt_types_distinct Let_def)


lemma rx_packet_data_overflow:
  assumes "started st" and "hdr_type buf = PKT_DATA" and "hdr_seq buf \<noteq> 0"
    and "hdr_seq buf \<le> total_segs st" and "\<not> have_bits st ! unat (hdr_seq buf)"
    and "unat (hdr_len buf) \<le> P"
    and "length (sink st) < unat (seg_offset P (hdr_seq buf)) + unat (hdr_len buf)"
  shows "rx_packet P st buf p = Fault"
proof -
  have "\<not> total_segs st < hdr_seq buf" "\<not> P < unat (hdr_len buf)"
    using assms(4,6) by simp_all
  then show ?thesis
    using assms(1,2,3,5,7) by (simp add: rx_packet_def pkt_types_distinct Let_def)
qed

lemma rx_packet_data_dup:
  assumes "started st" and "hdr_type buf = PKT_DATA" and "hdr_seq buf \<noteq> 0"
    and "hdr_seq buf \<le> total_segs st" and "have_bits st ! unat (hdr_seq buf)"
  shows "rx_packet P st buf p = Next st buf (rx_ack p st)"
proof -
  have "\<not> total_segs st < hdr_seq buf"
    using assms(4) by simp
  then show ?thesis
    using assms by (simp add: rx_packet_def pkt_types_distinct Let_def)
qed

lemma bit_push_one: "bit (push_bit n 1 :: u64) i \<longleftrightarrow> i = n \<and> n < 64"
  by (auto simp add: bit_exp_iff)

lemma bit_sack_bit:
  "bit (sack_bit hv N c n m) i
     \<longleftrightarrow> bit m i \<or> (i = n \<and> c + 1 + of_nat n \<le> N \<and> hv ! unat (c + 1 + of_nat n))"
  if "n < 64"
proof (cases "c + 1 + of_nat n \<le> N \<and> hv ! unat (c + 1 + of_nat n)")
  case True
  then show ?thesis
    using that by (simp add: sack_bit_def Let_def bit_or_iff bit_push_one del: push_bit_of_1)
next
  case False
  then have "sack_bit hv N c n m = m"
    unfolding sack_bit_def Let_def by (rule if_not_P)
  with False show ?thesis
    by auto
qed

lemma sack_fold_bit:
  "n \<le> 64 \<Longrightarrow> bit (fold (sack_bit hv N c) [0..<n] 0) i
     \<longleftrightarrow> i < n \<and> c + 1 + of_nat i \<le> N \<and> hv ! unat (c + 1 + of_nat i)"
proof (induction n)
  case 0
  then show ?case by simp
next
  case (Suc n)
  then have IH: "bit (fold (sack_bit hv N c) [0..<n] 0) i
     \<longleftrightarrow> i < n \<and> c + 1 + of_nat i \<le> N \<and> hv ! unat (c + 1 + of_nat i)" and n: "n < 64"
    by simp_all
  have "bit (fold (sack_bit hv N c) [0..<Suc n] 0) i
    \<longleftrightarrow> bit (sack_bit hv N c n (fold (sack_bit hv N c) [0..<n] 0)) i"
    by simp
  also have "\<dots> \<longleftrightarrow> (i < n \<and> c + 1 + of_nat i \<le> N \<and> hv ! unat (c + 1 + of_nat i))
      \<or> (i = n \<and> c + 1 + of_nat n \<le> N \<and> hv ! unat (c + 1 + of_nat n))"
    by (simp only: bit_sack_bit[OF n] IH)
  also have "\<dots> \<longleftrightarrow> i < Suc n \<and> c + 1 + of_nat i \<le> N \<and> hv ! unat (c + 1 + of_nat i)"
    by (auto simp add: less_Suc_eq)
  finally show ?case .
qed

lemma bit_sack_mask:
  "bit (sack_mask hv N c) i \<longleftrightarrow> i < 64 \<and> c + 1 + of_nat i \<le> N \<and> hv ! unat (c + 1 + of_nat i)"
  by (simp add: sack_mask_def sack_fold_bit)






lemma rx_packet_start_active:
  assumes "started st" and "hdr_type buf = PKT_START" and "hdr_seq buf = 0"
  shows "rx_packet P st buf p = Next st buf (Ack p (cum_ack st) 0)"
  using assms by (simp add: rx_packet_def)

lemma rx_packet_end:
  assumes "started st" and "hdr_type buf = PKT_END"
  shows "rx_packet P st buf p =
           Next (if cum_ack st = total_segs st then st\<lparr>finished := True\<rparr> else st) buf (rx_ack p st)"
  using assms by (simp add: rx_packet_def pkt_types_distinct)

section \<open>The invariant of the receiver\<close>











text \<open>
  Claim C10. Before a START has been accepted (\<^verbatim>\<open>started\<close> is not set), a datagram that
  holds a header of type DATA or END is dropped: the iteration leaves the state as it
  was, allocates nothing and sends no response. Only the receive buffer holds the new
  datagram.
\<close>

theorem data_end_before_start_discarded:
  assumes "\<not> started st" and "HDR \<le> length d"
    and "hdr_type d = PKT_DATA \<or> hdr_type d = PKT_END"
  shows "rx_step P st buf (p, d) = Next st (snd (recv_into (HDR + P) buf d)) NoResp"
proof -
  have "hdr_type d \<noteq> PKT_START"
    using assms(3) by (auto simp add: PKT_DATA_def PKT_END_def PKT_START_def)
  then show ?thesis
    using assms(1,2) by (simp add: rx_step_long rx_packet_idle hdr_recv)
qed

theorem data_end_before_start_discarded_witness:
  "\<not> started rx_init \<and> HDR \<le> length [1, 0, 0, 0, 1, 0, 0 :: byte]
   \<and> rx_step 512 rx_init (replicate 535 0) (1, [1, 0, 0, 0, 1, 0, 0])
     = Next rx_init ([1, 0, 0, 0, 1, 0, 0] @ replicate 528 0) NoResp"
proof -
  have h1: "\<not> started rx_init"
    by (simp add: rx_init_def)
  have h2: "HDR \<le> length [1, 0, 0, 0, 1, 0, 0 :: byte]"
    by (simp add: HDR_def)
  have h3: "hdr_type [1, 0, 0, 0, 1, 0, 0] = PKT_DATA \<or> hdr_type [1, 0, 0, 0, 1, 0, 0] = PKT_END"
    by (simp add: hdr_type_def PKT_DATA_def)
  show ?thesis
    using h1 h2 data_end_before_start_discarded[OF h1 h2 h3, of 512 "replicate 535 0" 1]
    by (simp add: recv_into_buf HDR_def)
qed

lemma rx_step_ack_long:
  assumes "rx_step P st buf (p, d) = Next st' buf' out" and "out \<noteq> NoResp"
  shows "HDR \<le> length d"
proof (rule ccontr)
  assume "\<not> HDR \<le> length d"
  then have "length d < HDR" by simp
  from rx_step_short[OF this, of P st buf p] assms show False by simp
qed

lemma rx_packet_ack:
  assumes "rx_packet P st buf p = Next st' buf' (Ack q c m)"
  shows "q = p \<and> c = cum_ack st' \<and>
    (if hdr_type buf = PKT_START \<and> hdr_seq buf = 0 then m = 0
     else m = sack_mask (have_bits st') (total_segs st') (cum_ack st'))"
  using assms unfolding rx_packet_def Let_def
  by (auto simp add: rx_ack_def split: if_splits option.splits)

lemma unat_seq_plus:
  assumes "unat (c :: u32) + 1 + i < 2 ^ 32"
  shows "unat (c + 1 + of_nat i) = unat c + 1 + i"
proof -
  have "i < 2 ^ 32"
    using assms by simp
  then have i: "unat (of_nat i :: u32) = i"
    by (simp add: unat_of_nat)
  have "unat c + unat (1 :: u32) < 2 ^ LENGTH(32)"
    using assms by simp
  then have c1: "unat (c + 1) = unat c + 1"
    by (simp add: unat_add_lem[THEN iffD1])
  have "unat (c + 1) + unat (of_nat i :: u32) < 2 ^ LENGTH(32)"
    using assms by (simp add: c1 i)
  then have "unat (c + 1 + of_nat i) = unat (c + 1) + unat (of_nat i :: u32)"
    by (rule unat_add_lem[THEN iffD1])
  then show ?thesis
    by (simp add: c1 i)
qed

text \<open>
  Claim C5, amended. An ACK that answers DATA or END carries \<^verbatim>\<open>cum_ack\<close> and a mask
  whose bit \<^verbatim>\<open>i\<close>, for \<^verbatim>\<open>i\<close> from 0 to 63, is set exactly when \<^verbatim>\<open>s \<le> total_segs\<close> and
  \<^verbatim>\<open>have[s]\<close>, where \<^verbatim>\<open>s\<close> is the 32-bit value \<^verbatim>\<open>cum_ack + 1 + i\<close> that the code computes;
  it is the number \<^verbatim>\<open>cum_ack + 1 + i\<close> whenever \<^verbatim>\<open>cum_ack + 64\<close> fits 32 bits. An ACK
  that answers START carries the mask 0.
\<close>

theorem ack_mask_reports_received:
  assumes "rx_step P st buf (p, d) = Next st' buf' (Ack q c m)"
  shows "q = p \<and> c = cum_ack st' \<and>
    (if hdr_type d = PKT_START \<and> hdr_seq d = 0 then m = 0
     else (\<forall>i<64. bit m i \<longleftrightarrow>
              c + 1 + of_nat i \<le> total_segs st' \<and> have_bits st' ! unat (c + 1 + of_nat i))
        \<and> (unat c + 64 < 2 ^ 32 \<longrightarrow>
            (\<forall>i<64. bit m i \<longleftrightarrow>
              unat c + 1 + i \<le> unat (total_segs st') \<and> have_bits st' ! (unat c + 1 + i))))"
proof -
  have long: "HDR \<le> length d"
    using assms by (rule rx_step_ack_long) simp
  let ?b = "snd (recv_into (HDR + P) buf d)"
  have "rx_packet P st ?b p = Next st' buf' (Ack q c m)"
    using assms by (simp add: rx_step_long[OF long])
  from rx_packet_ack[OF this]
  have qc: "q = p \<and> c = cum_ack st'"
    and m: "if hdr_type d = PKT_START \<and> hdr_seq d = 0 then m = 0
      else m = sack_mask (have_bits st') (total_segs st') c"
    by (simp_all add: hdr_recv[OF long])
  show ?thesis
  proof (cases "hdr_type d = PKT_START \<and> hdr_seq d = 0")
    case True
    then show ?thesis using qc m by simp
  next
    case False
    then have meq: "m = sack_mask (have_bits st') (total_segs st') c"
      using m by simp
    have w: "\<forall>i<64. bit m i \<longleftrightarrow>
        c + 1 + of_nat i \<le> total_segs st' \<and> have_bits st' ! unat (c + 1 + of_nat i)"
      by (simp add: meq bit_sack_mask)
    have n: "\<forall>i<64. bit m i \<longleftrightarrow>
        unat c + 1 + i \<le> unat (total_segs st') \<and> have_bits st' ! (unat c + 1 + i)"
      if "unat c + 64 < 2 ^ 32"
    proof (intro allI impI)
      fix i :: nat assume "i < 64"
      then have "unat c + 1 + i < 2 ^ 32"
        using that by simp
      then have "unat (c + 1 + of_nat i) = unat c + 1 + i"
        by (rule unat_seq_plus)
      then show "bit m i \<longleftrightarrow>
        unat c + 1 + i \<le> unat (total_segs st') \<and> have_bits st' ! (unat c + 1 + i)"
        using w \<open>i < 64\<close> by (simp add: word_le_nat_alt)
    qed
    show ?thesis
      unfolding if_not_P[OF False] using qc w n by blast
  qed
qed

section \<open>The example session, evaluated\<close>

lemmas rx_eval = rx_step_def rx_packet_def recv_into_def HDR_def hdr_type_def hdr_seq_def
  hdr_len_def field_def be_nat_def PKT_START_def PKT_DATA_def PKT_END_def rx_start_def
  rx_init_def total_segs_of_def rx_store_def rx_ack_def seg_offset_def
  demo_buf_def demo_start_def demo_data_def demo_st_def

lemma replicate_2: "replicate 2 x = [x, x]"
  by (simp add: numeral_2_eq_2)

lemma sack_mask_eval:
  "sack_mask [False, False, True] 2 0 = 2"
  "sack_mask [False, True, False] 2 1 = 0"
  "sack_mask [False, False, False] 2 0 = 0"
  by (simp_all add: sack_mask_def sack_bit_def upt_rec[of _ "numeral _"])

lemma advance_cum_eval:
  "advance_cum [False, False, True] 2 0 = 0"
  "advance_cum [False, True, False] 2 0 = 1"
  by (simp_all add: advance_cum.simps)

lemma demo_run_start:
  "rx_run 512 rx_init demo_buf [(p, demo_start)]
     = Some (demo_st, demo_start @ replicate 520 0, [Ack p 0 0])"
  by (simp add: rx_eval replicate_2)

lemma demo_step_data2:
  "rx_step 512 demo_st (demo_start @ replicate 520 0) (p, demo_data 2 0 0)
     = Next (demo_st\<lparr>have_bits := [False, False, True]\<rparr>)
         (demo_data 2 0 0 @ [0, 0, 0, 0, 0, 0, 4, 0] @ replicate 520 0) (Ack p 0 2)"
  by (simp add: rx_eval sack_mask_eval advance_cum_eval write_at.simps)

lemma demo_step_data1:
  "rx_step 512 demo_st (demo_start @ replicate 520 0) (p, demo_data 1 0 0)
     = Next (demo_st\<lparr>have_bits := [False, True, False], cum_ack := 1\<rparr>)
         (demo_data 1 0 0 @ [0, 0, 0, 0, 0, 0, 4, 0] @ replicate 520 0) (Ack p 1 0)"
  by (simp add: rx_eval sack_mask_eval advance_cum_eval write_at.simps)


theorem ack_mask_reports_received_witness:
  "rx_step 512 demo_st (demo_start @ replicate 520 0) (1, demo_data 2 0 0)
     = Next (demo_st\<lparr>have_bits := [False, False, True]\<rparr>)
         (demo_data 2 0 0 @ [0, 0, 0, 0, 0, 0, 4, 0] @ replicate 520 0) (Ack 1 0 2)
   \<and> bit (2 :: u64) 1
   \<and> have_bits (demo_st\<lparr>have_bits := [False, False, True]\<rparr>) ! unat (0 + 1 + of_nat 1 :: u32)"
proof -
  note step = demo_step_data2[of 1]
  have "hdr_type (demo_data 2 0 0) \<noteq> PKT_START"
    by (simp add: hdr_type_def demo_data_def PKT_START_def)
  with ack_mask_reports_received[OF step]
  have "\<forall>i<64. bit (2 :: u64) i \<longleftrightarrow>
      0 + 1 + of_nat i \<le> total_segs (demo_st\<lparr>have_bits := [False, False, True]\<rparr>)
      \<and> have_bits (demo_st\<lparr>have_bits := [False, False, True]\<rparr>) ! unat (0 + 1 + of_nat i :: u32)"
    by simp
  then have "bit (2 :: u64) 1 \<longleftrightarrow>
      0 + 1 + of_nat 1 \<le> total_segs (demo_st\<lparr>have_bits := [False, False, True]\<rparr>)
      \<and> have_bits (demo_st\<lparr>have_bits := [False, False, True]\<rparr>) ! unat (0 + 1 + of_nat 1 :: u32)"
    by (rule allE[of _ 1]) simp
  moreover have "bit (2 :: u64) 1"
    by (simp add: bit_numeral_Bit0_Suc_iff numeral_eq_Suc)
  ultimately show ?thesis
    using step by blast
qed

text \<open>
  Against claim C5 as stated: with segment 2 of 2 received out of order, a second START
  is answered by an ACK with \<^verbatim>\<open>cum_ack = 0\<close> and mask 0, although
  \<^verbatim>\<open>cum_ack + 1 + 1 = 2 \<le> total_segs\<close> and \<^verbatim>\<open>have[2]\<close> is set (bit 1 should be set).
\<close>

theorem start_ack_mask_counterexample:
  "case rx_run 512 rx_init demo_buf [(1, demo_start), (1, demo_data 2 0 0), (1, demo_start)] of
     None \<Rightarrow> False
   | Some (st, buf, outs) \<Rightarrow>
       outs = [Ack 1 0 0, Ack 1 0 2, Ack 1 0 0] \<and> cum_ack st = 0 \<and> total_segs st = 2
       \<and> have_bits st ! 2 \<and> \<not> bit (0 :: u64) 1"
  by (simp add: rx_eval replicate_2 sack_mask_eval advance_cum_eval write_at.simps)

text \<open>
  Claim C8, amended. While a session is active, a START packet (sequence number 0)
  from any peer, the peer of the handshake or another, is answered to that peer by an
  ACK carrying the current \<^verbatim>\<open>cum_ack\<close> and the mask 0. Nothing of the state changes:
  the bitmap is not allocated again and the sink is not opened again. The receiver
  records no peer of the handshake.
\<close>

theorem start_during_session_acked:
  assumes "started st" and "HDR \<le> length d" and "hdr_type d = PKT_START" and "hdr_seq d = 0"
  shows "rx_step P st buf (p, d) = Next st (snd (recv_into (HDR + P) buf d)) (Ack p (cum_ack st) 0)"
  using assms by (simp add: rx_step_long rx_packet_start_active hdr_recv)

theorem start_during_session_acked_witness:
  "started demo_st \<and> HDR \<le> length demo_start \<and> hdr_type demo_start = PKT_START
   \<and> hdr_seq demo_start = 0
   \<and> rx_step 512 demo_st demo_buf (7, demo_start)
     = Next demo_st (demo_start @ replicate 520 0) (Ack 7 (cum_ack demo_st) 0)"
proof -
  have h: "started demo_st" "HDR \<le> length demo_start" "hdr_type demo_start = PKT_START"
    "hdr_seq demo_start = 0"
    by (simp_all add: demo_st_def demo_start_def HDR_def hdr_type_def PKT_START_def hdr_seq_def
        field_def be_nat_def)
  have "snd (recv_into (HDR + 512) demo_buf demo_start) = demo_start @ replicate 520 0"
    by (simp add: recv_into_buf demo_buf_def demo_start_def HDR_def)
  with start_during_session_acked[OF h, of 512 demo_buf 7] h show ?thesis
    by simp
qed

text \<open>
  Against claim C8 as stated: after the handshake with peer 1, a START from peer 2 is
  not ignored; the receiver answers peer 2 with an ACK.
\<close>

theorem start_other_peer_counterexample:
  "rx_run 512 rx_init demo_buf [(1, demo_start), (2, demo_start)]
     = Some (demo_st, demo_start @ replicate 520 0, [Ack 1 0 0, Ack 2 0 0])"
  by (simp add: rx_eval replicate_2)

text \<open>
  Claim C6, amended. A DATA packet is discarded, with the bitmap, \<^verbatim>\<open>cum_ack\<close> and the
  sink unchanged and no ACK sent, when its sequence number is 0 or greater than
  \<^verbatim>\<open>total_segs\<close>, or when its segment has not been received yet and its length field
  exceeds \<^verbatim>\<open>payload_max\<close>. A DATA packet for a segment already received changes nothing
  either, but is acknowledged whatever its length field says: the length is checked
  only on the path that stores a payload.
\<close>

theorem invalid_data_discarded:
  assumes "HDR \<le> length d" and "hdr_type d = PKT_DATA"
  shows "(hdr_seq d = 0 \<or> total_segs st < hdr_seq d
            \<or> (\<not> have_bits st ! unat (hdr_seq d) \<and> P < unat (hdr_len d))
          \<longrightarrow> rx_step P st buf (p, d) = Next st (snd (recv_into (HDR + P) buf d)) NoResp)
       \<and> (started st \<and> hdr_seq d \<noteq> 0 \<and> hdr_seq d \<le> total_segs st
            \<and> have_bits st ! unat (hdr_seq d)
          \<longrightarrow> rx_step P st buf (p, d)
                = Next st (snd (recv_into (HDR + P) buf d)) (rx_ack p st))"
proof -
  let ?b = "snd (recv_into (HDR + P) buf d)"
  have h: "hdr_type ?b = PKT_DATA" "hdr_seq ?b = hdr_seq d" "hdr_len ?b = hdr_len d"
    using assms by (simp_all add: hdr_recv)
  have "rx_packet P st ?b p = Next st ?b NoResp"
    if "hdr_seq d = 0 \<or> total_segs st < hdr_seq d
        \<or> (\<not> have_bits st ! unat (hdr_seq d) \<and> P < unat (hdr_len d))"
    using that h rx_packet_data_range[of ?b st P p] rx_packet_data_big[of ?b st P p]
    by auto
  moreover have "rx_packet P st ?b p = Next st ?b (rx_ack p st)"
    if "started st \<and> hdr_seq d \<noteq> 0 \<and> hdr_seq d \<le> total_segs st
        \<and> have_bits st ! unat (hdr_seq d)"
    using that h by (simp add: rx_packet_data_dup)
  ultimately show ?thesis
    using assms(1) by (simp add: rx_step_long)
qed

theorem invalid_data_discarded_witness:
  "HDR \<le> length (demo_data 3 0 0) \<and> hdr_type (demo_data 3 0 0) = PKT_DATA
   \<and> total_segs demo_st < hdr_seq (demo_data 3 0 0)
   \<and> rx_step 512 demo_st demo_buf (1, demo_data 3 0 0)
       = Next demo_st (demo_data 3 0 0 @ replicate 528 0) NoResp"
proof -
  have h: "HDR \<le> length (demo_data 3 0 0)" "hdr_type (demo_data 3 0 0) = PKT_DATA"
    by (simp_all add: demo_data_def HDR_def hdr_type_def PKT_DATA_def)
  have r: "total_segs demo_st < hdr_seq (demo_data 3 0 0)"
    by (simp add: demo_st_def demo_data_def hdr_seq_def field_def be_nat_def)
  have "snd (recv_into (HDR + 512) demo_buf (demo_data 3 0 0)) = demo_data 3 0 0 @ replicate 528 0"
    by (simp add: recv_into_buf demo_buf_def demo_data_def HDR_def)
  with invalid_data_discarded[OF h, of demo_st 512 demo_buf 1] h r show ?thesis
    by simp
qed

text \<open>
  Against claim C6 as stated: segment 1 has been received; a second DATA packet for
  segment 1 whose length field is 65535, above \<^verbatim>\<open>payload_max = 512\<close>, is answered by an
  ACK.
\<close>

theorem oversize_duplicate_counterexample:
  "case rx_run 512 rx_init demo_buf
          [(1, demo_start), (1, demo_data 1 0 0), (1, demo_data 1 255 255)] of
     None \<Rightarrow> False
   | Some (st, buf, outs) \<Rightarrow>
       outs = [Ack 1 0 0, Ack 1 1 0, Ack 1 1 0] \<and> 512 < unat (hdr_len (demo_data 1 255 255))"
  by (simp add: rx_eval replicate_2 sack_mask_eval advance_cum_eval write_at.simps)



















text \<open>
  A DATA packet for a fresh segment in range whose length field is at most
  \<^verbatim>\<open>payload_max\<close> but reaches past the announced total is not discarded: the \<^verbatim>\<open>memcpy\<close>
  runs past the end of the mapping.
\<close>

lemma rx_step_data_overflow:
  assumes "started st" and "HDR \<le> length d" and "hdr_type d = PKT_DATA" and "hdr_seq d \<noteq> 0"
    and "hdr_seq d \<le> total_segs st" and "\<not> have_bits st ! unat (hdr_seq d)"
    and "unat (hdr_len d) \<le> P" and "P < 2 ^ 31"
    and "length (sink st) < (unat (hdr_seq d) - 1) * P + unat (hdr_len d)"
  shows "rx_step P st buf (p, d) = Fault"
proof -
  have "unat (seg_offset P (hdr_seq d)) = (unat (hdr_seq d) - 1) * P"
    using assms(4,8) by (rule unat_seg_offset)
  then show ?thesis
    using assms rx_packet_data_overflow[of st "snd (recv_into (HDR + P) buf d)" P p]
    by (simp add: rx_step_long hdr_recv)
qed

section \<open>Segments\<close>

lemma ceil_div_bounds:
  fixes T P :: nat
  assumes "0 < T" and "0 < P"
  shows "((T + P - 1) div P - 1) * P < T" and "T \<le> (T + P - 1) div P * P"
    and "1 \<le> (T + P - 1) div P"
proof -
  define N where "N = (T + P - 1) div P"
  define M where "M = N * P"
  have lo: "M \<le> T + P - 1"
    unfolding M_def N_def by (rule div_times_less_eq_dividend)
  have "T + P - 1 < P + (T + P - 1) div P * P"
    using assms(2) by (rule dividend_less_div_times)
  then have hi: "T + P - 1 < P + M"
    by (simp only: M_def N_def)
  show "T \<le> (T + P - 1) div P * P"
    using hi assms unfolding M_def N_def by linarith
  have "P \<le> T + P - 1"
    using assms by linarith
  then have "P div P \<le> (T + P - 1) div P"
    by (rule div_le_mono)
  then show n1: "1 \<le> (T + P - 1) div P"
    using assms(2) by simp
  have "(N - 1) * P = M - P"
    by (simp only: M_def diff_mult_distrib mult_1)
  moreover have "M - P < T"
    using lo assms by linarith
  ultimately show "((T + P - 1) div P - 1) * P < T"
    by (simp only: N_def)
qed

lemma count_segs:
  assumes P: "0 < P" "P \<le> 65535" and N: "(unat tb + P - 1) div P < 2 ^ 32"
  shows "unat (total_segs_of tb P) = (unat tb + P - 1) div P"
proof -
  let ?T = "unat tb"
  have "?T + P - 1 < ((?T + P - 1) div P + 1) * P"
    using dividend_less_div_times[OF P(1), of "?T + P - 1"] by (simp add: add.commute)
  also have "\<dots> \<le> 2 ^ 32 * 65535"
  proof (rule mult_mono)
    show "(?T + P - 1) div P + 1 \<le> 2 ^ 32" using N by simp
    show "P \<le> 65535" by (rule P(2))
  qed simp_all
  also have "\<dots> < (2 :: nat) ^ 64"
    by simp
  finally have small: "?T + P - 1 < 2 ^ 64" .
  have "P < 2 ^ 64"
    using P(2) by simp
  then have Pw: "unat (of_nat P :: u64) = P"
    by (simp add: unat_of_nat)
  have "P - 1 < 2 ^ 64"
    using P(2) by simp
  then have P1: "unat (of_nat (P - 1) :: u64) = P - 1"
    by (simp add: unat_of_nat)
  have "tb + of_nat P - 1 = tb + of_nat (P - 1)"
    using P(1) by (simp add: of_nat_diff)
  moreover have "unat tb + (P - 1) < 2 ^ 64"
    using small P(1) by linarith
  then have "unat tb + unat (of_nat (P - 1) :: u64) < 2 ^ LENGTH(64)"
    by (simp only: P1) simp
  then have "unat (tb + of_nat (P - 1)) = unat tb + unat (of_nat (P - 1) :: u64)"
    by (rule unat_add_lem[THEN iffD1])
  ultimately have "unat (tb + of_nat P - 1) = ?T + (P - 1)"
    by (simp only: P1)
  then have sum: "unat (tb + of_nat P - 1) = ?T + P - 1"
    using P(1) by linarith
  have "unat ((tb + of_nat P - 1) div of_nat P) = (?T + P - 1) div P"
    by (simp only: unat_div sum Pw)
  then have "unat (ucast ((tb + of_nat P - 1) div of_nat P) :: u32) = (?T + P - 1) div P"
    using N by (simp only: unsigned_ucast_eq) (simp add: take_bit_nat_eq_self)
  then show ?thesis
    by (simp only: total_segs_of_def)
qed

lemma unat_min_word: "unat (min a b :: 'a::len word) = min (unat a) (unat b)"
  by (simp add: min_def word_le_nat_alt)

lemma unat_seg_len:
  assumes P: "0 < P" "P \<le> 65535" and s: "s \<noteq> 0" and off: "(unat s - 1) * P \<le> unat tb"
  shows "unat (seg_len tb P s) = min P (unat tb - (unat s - 1) * P)"
proof -
  have P31: "P < 2 ^ 31"
    using P(2) by simp
  have o: "unat (seg_offset P s) = (unat s - 1) * P"
    using s P31 by (rule unat_seg_offset)
  then have "seg_offset P s \<le> tb"
    using off by (simp add: word_le_nat_alt)
  then have d: "unat (tb - seg_offset P s) = unat tb - (unat s - 1) * P"
    by (simp only: unat_sub o)
  have "P < 2 ^ 64"
    using P(2) by simp
  then have Pw: "unat (of_nat P :: u64) = P"
    by (simp add: unat_of_nat)
  have m: "unat (min (of_nat P) (tb - seg_offset P s)) = min P (unat tb - (unat s - 1) * P)"
    by (simp only: unat_min_word Pw d)
  have "min P (unat tb - (unat s - 1) * P) < 2 ^ 16"
    using P(2) by simp
  then have "unat (ucast (min (of_nat P) (tb - seg_offset P s)) :: u16)
      = min P (unat tb - (unat s - 1) * P)"
    by (simp only: unsigned_ucast_eq m) (simp add: take_bit_nat_eq_self)
  then show ?thesis
    by (simp only: seg_len_def)
qed

lemma seg_bounds_nat:
  fixes T P k :: nat
  assumes "0 < T" and "0 < P" and k: "1 \<le> k" "k \<le> (T + P - 1) div P"
  shows "(k - 1) * P < T"
    and "k < (T + P - 1) div P \<Longrightarrow> min P (T - (k - 1) * P) = P"
    and "1 \<le> min P (T - (k - 1) * P)"
proof -
  define N where "N = (T + P - 1) div P"
  have N: "(N - 1) * P < T" "1 \<le> N"
    unfolding N_def using assms(1,2) by (rule ceil_div_bounds)+
  have "k - 1 \<le> N - 1"
    using k(2) unfolding N_def by simp
  then have "(k - 1) * P \<le> (N - 1) * P"
    by (rule mult_le_mono1)
  then show lt: "(k - 1) * P < T"
    using N(1) by linarith
  then show "1 \<le> min P (T - (k - 1) * P)"
    using assms(2) by simp
  show "min P (T - (k - 1) * P) = P" if "k < (T + P - 1) div P"
  proof -
    have "k \<le> N - 1"
      using that unfolding N_def by simp
    then have "k * P \<le> (N - 1) * P"
      by (rule mult_le_mono1)
    moreover have "k * P = (k - 1) * P + P"
      using k(1) by (simp add: mult_eq_if)
    ultimately have "P \<le> T - (k - 1) * P"
      using N(1) by linarith
    then show ?thesis
      by simp
  qed
qed

lemma seg_last_nat:
  fixes T P :: nat
  assumes "0 < T" and "0 < P"
  shows "(T + P - 1) div P * P = ((T + P - 1) div P - 1) * P + P"
    and "T \<le> ((T + P - 1) div P - 1) * P + P"
proof -
  define N where "N = (T + P - 1) div P"
  have N: "T \<le> N * P" "1 \<le> N"
    unfolding N_def using assms by (rule ceil_div_bounds)+
  show e: "(T + P - 1) div P * P = ((T + P - 1) div P - 1) * P + P"
    using N(2) unfolding N_def by (simp add: mult_eq_if)
  show "T \<le> ((T + P - 1) div P - 1) * P + P"
    using N(1) e unfolding N_def by simp
qed

lemma seg_index_nat:
  fixes T P b :: nat
  assumes "0 < P" and "b < T"
  shows "b div P + 1 \<le> (T + P - 1) div P"
proof -
  have "b + P \<le> T + P - 1"
    using assms by linarith
  then have "(b + P) div P \<le> (T + P - 1) div P"
    by (rule div_le_mono)
  then show ?thesis
    using assms(1) by simp
qed

lemma seg_props:
  assumes T: "tb \<noteq> 0" and P: "0 < P" "P \<le> 65535"
    and N: "(unat tb + P - 1) div P < 2 ^ 32"
    and s: "1 \<le> s" "s \<le> total_segs_of tb P"
  shows "unat (seg_offset P s) = (unat s - 1) * P"
    and "unat (seg_len tb P s) = min P (unat tb - (unat s - 1) * P)"
    and "(unat s - 1) * P < unat tb"
    and "1 \<le> unat s" and "unat s \<le> (unat tb + P - 1) div P"
proof -
  have T0: "0 < unat tb"
    using T by (simp add: unat_gt_0)
  have cnt: "unat (total_segs_of tb P) = (unat tb + P - 1) div P"
    using P N by (rule count_segs)
  show k: "1 \<le> unat s" "unat s \<le> (unat tb + P - 1) div P"
    using s cnt by (simp_all add: word_le_nat_alt)
  have s0: "s \<noteq> 0"
    using k(1) by auto
  show lt: "(unat s - 1) * P < unat tb"
    using T0 P(1) k by (rule seg_bounds_nat)
  show "unat (seg_offset P s) = (unat s - 1) * P"
    using s0 P(2) by (intro unat_seg_offset) simp_all
  show "unat (seg_len tb P s) = min P (unat tb - (unat s - 1) * P)"
    using P s0 lt by (intro unat_seg_len) simp_all
qed

text \<open>
  Claim C9, amended. For every total length \<^verbatim>\<open>T > 0\<close> and segment size \<^verbatim>\<open>P\<close> from 512 to
  65535 such that \<^verbatim>\<open>N = (T + P - 1) div P\<close>, the number \<^verbatim>\<open>T / P\<close> rounded up, fits 32 bits:
  \<^verbatim>\<open>total_segs\<close> is \<^verbatim>\<open>N\<close>; the length computed for a segment is \<^verbatim>\<open>P\<close> for every segment
  before the last and lies between 1 and \<^verbatim>\<open>P\<close> for the last; the offset of segment \<^verbatim>\<open>s\<close>
  is \<^verbatim>\<open>(s - 1) * P\<close>, and the byte ranges of the segments 1 to \<^verbatim>\<open>N\<close> stay within \<^verbatim>\<open>T\<close> and
  cover every byte below \<^verbatim>\<open>T\<close> exactly once.
\<close>

theorem segments_partition_payload:
  assumes T: "tb \<noteq> 0" and P: "512 \<le> P" "P \<le> 65535"
    and N: "(unat tb + P - 1) div P < 2 ^ 32"
  shows "unat (total_segs_of tb P) = (unat tb + P - 1) div P
    \<and> (\<forall>s. 1 \<le> s \<and> s < total_segs_of tb P \<longrightarrow> unat (seg_len tb P s) = P)
    \<and> 1 \<le> unat (seg_len tb P (total_segs_of tb P))
    \<and> unat (seg_len tb P (total_segs_of tb P)) \<le> P
    \<and> (\<forall>s. 1 \<le> s \<and> s \<le> total_segs_of tb P \<longrightarrow>
          unat (seg_offset P s) = (unat s - 1) * P
          \<and> unat (seg_offset P s) + unat (seg_len tb P s) \<le> unat tb)
    \<and> (\<forall>b<unat tb. \<exists>!s. 1 \<le> s \<and> s \<le> total_segs_of tb P
          \<and> unat (seg_offset P s) \<le> b
          \<and> b < unat (seg_offset P s) + unat (seg_len tb P s))"
proof -
  let ?T = "unat tb" and ?N = "total_segs_of tb P"
  have P0: "0 < P"
    using P(1) by simp
  have T0: "0 < ?T"
    using T by (simp add: unat_gt_0)
  note props = seg_props[OF T P0 P(2) N]
  have cnt: "unat ?N = (?T + P - 1) div P"
    using P0 P(2) N by (rule count_segs)
  have N1: "1 \<le> ?N"
    using ceil_div_bounds(3)[OF T0 P0] cnt by (simp add: word_le_nat_alt)
  have full: "unat (seg_len tb P s) = P" if "1 \<le> s \<and> s < ?N" for s
  proof -
    have le: "s \<le> ?N"
      using that by (simp add: less_imp_le)
    have lt: "unat s < (?T + P - 1) div P"
      using that cnt by (simp add: word_less_nat_alt)
    have "min P (?T - (unat s - 1) * P) = P"
      using T0 P0 props(4,5)[OF conjunct1[OF that] le] lt by (rule seg_bounds_nat(2))
    then show ?thesis
      using props(2)[OF conjunct1[OF that] le] by simp
  qed
  have last: "unat (seg_len tb P ?N) = min P (?T - (unat ?N - 1) * P)"
    using N1 by (intro props(2)) simp_all
  have last1: "1 \<le> unat (seg_len tb P ?N)"
    unfolding last using T0 P0 props(4,5)[OF N1 order_refl] by (rule seg_bounds_nat(3))
  have lastP: "unat (seg_len tb P ?N) \<le> P"
    unfolding last by simp
  have within: "unat (seg_offset P s) = (unat s - 1) * P
      \<and> unat (seg_offset P s) + unat (seg_len tb P s) \<le> ?T" if "1 \<le> s \<and> s \<le> ?N" for s
  proof -
    note p = props[OF conjunct1[OF that] conjunct2[OF that]]
    show ?thesis
      using p(3) by (simp add: p(1,2))
  qed
  have part: "\<exists>!s. 1 \<le> s \<and> s \<le> ?N \<and> unat (seg_offset P s) \<le> b
      \<and> b < unat (seg_offset P s) + unat (seg_len tb P s)" if b: "b < ?T" for b
  proof -
    define q where "q = b div P"
    have qN: "q + 1 \<le> (?T + P - 1) div P"
      unfolding q_def using P0 b by (rule seg_index_nat)
    then have q32: "q + 1 < 2 ^ 32"
      using N by simp
    define sq :: u32 where "sq = of_nat (q + 1)"
    have "(q + 1) mod 2 ^ LENGTH(32) = q + 1"
      using q32 by simp
    then have uq: "unat sq = q + 1"
      unfolding sq_def by (simp only: unat_of_nat)
    have s1: "1 \<le> sq"
      by (simp only: word_le_nat_alt uq unat_1)
    have sN: "sq \<le> ?N"
      using qN by (simp only: word_le_nat_alt uq cnt)
    note p = props[OF s1 sN]
    have qb: "q * P \<le> b" and bq: "b < q * P + P"
      unfolding q_def using P0 dividend_less_div_times[OF P0, of b]
      by (simp_all add: add.commute)
    have "q * P + (?T - q * P) = ?T"
      using qb b by linarith
    then have "b < q * P + min P (?T - q * P)"
      using bq b by (cases "P \<le> ?T - q * P") (simp_all add: min_def)
    then have ex: "1 \<le> sq \<and> sq \<le> ?N \<and> unat (seg_offset P sq) \<le> b
        \<and> b < unat (seg_offset P sq) + unat (seg_len tb P sq)"
      using s1 sN qb by (simp only: p(1,2) uq) simp
    have un: "s = sq" if h: "1 \<le> s \<and> s \<le> ?N \<and> unat (seg_offset P s) \<le> b
        \<and> b < unat (seg_offset P s) + unat (seg_len tb P s)" for s
    proof -
      have s: "1 \<le> s" "s \<le> ?N"
        using h by simp_all
      note ps = props[OF s]
      have lo: "(unat s - 1) * P \<le> b"
        and hi0: "b < (unat s - 1) * P + min P (?T - (unat s - 1) * P)"
        using h by (simp_all add: ps(1,2))
      have "min P (?T - (unat s - 1) * P) \<le> P"
        by simp
      with hi0 have hi: "b < (unat s - 1) * P + P"
        by linarith
      have "b div P = unat s - 1"
        using lo hi by (intro div_nat_eqI) (simp_all add: mult.commute)
      then have "unat s = q + 1"
        using ps(4) by (simp add: q_def)
      then show ?thesis
        using uq by (simp add: word_unat_eq_iff)
    qed
    show ?thesis
      using ex un by (intro ex1I[of _ sq]) blast+
  qed
  show ?thesis
    using cnt full last1 lastP within part by blast
qed

theorem segments_partition_payload_witness:
  "(1500 :: u64) \<noteq> 0 \<and> (512 :: nat) \<le> 1465 \<and> (1465 :: nat) \<le> 65535
   \<and> (unat (1500 :: u64) + 1465 - 1) div 1465 < (2 :: nat) ^ 32
   \<and> unat (total_segs_of 1500 1465) = 2
   \<and> 1 \<le> unat (seg_len 1500 1465 (total_segs_of 1500 1465))
   \<and> unat (seg_len 1500 1465 (total_segs_of 1500 1465)) \<le> 1465"
proof -
  have h: "(1500 :: u64) \<noteq> 0" "(512 :: nat) \<le> 1465" "(1465 :: nat) \<le> 65535"
    "(unat (1500 :: u64) + 1465 - 1) div 1465 < (2 :: nat) ^ 32"
    by simp_all
  from segments_partition_payload[OF h]
  have "unat (total_segs_of 1500 1465) = (unat (1500 :: u64) + 1465 - 1) div 1465"
    and "1 \<le> unat (seg_len 1500 1465 (total_segs_of 1500 1465))"
    and "unat (seg_len 1500 1465 (total_segs_of 1500 1465)) \<le> 1465"
    by blast+
  then show ?thesis
    using h by simp
qed

text \<open>
  Against claim C9 as stated: with \<^verbatim>\<open>P = 65536\<close> (an MTU of 65571) and \<^verbatim>\<open>T = 65536\<close> there
  is one segment, and the length computed for it, cut to the 16 bits of the header
  field, is 0.
\<close>

theorem segment_length_counterexample:
  "(65536 :: u64) \<noteq> 0 \<and> (512 :: nat) \<le> 65536 \<and> payload_max_of 65571 = 65536
   \<and> unat (total_segs_of 65536 65536) = 1
   \<and> unat (seg_len 65536 65536 (total_segs_of 65536 65536)) = 0"
  by (simp add: total_segs_of_def seg_len_def seg_offset_def payload_max_of_def)

section \<open>The sender: processing an acknowledgment\<close>

lemma unat_succ_max: "(N :: u32) \<noteq> -1 \<Longrightarrow> unat (N + 1) = unat N + 1"
proof -
  assume "N \<noteq> -1"
  then have "1 + N \<noteq> 0"
    by (simp add: eq_neg_iff_add_eq_0 add.commute)
  then have "unat (1 + N) = Suc (unat N)"
    by (rule unatSuc)
  then show ?thesis
    by (simp add: add.commute)
qed

lemma unat_succ_le: "(s :: u32) \<le> N \<Longrightarrow> N \<noteq> -1 \<Longrightarrow> unat (s + 1) = unat s + 1"
proof -
  assume a: "s \<le> N" "N \<noteq> -1"
  have "unat (N + 1) < 2 ^ 32"
    by (rule unat_u32_bound)
  then have "unat N + 1 < 2 ^ 32"
    using a(2) by (simp add: unat_succ_max)
  then have "unat s + unat (1 :: u32) < 2 ^ LENGTH(32)"
    using a(1) by (simp add: word_le_nat_alt)
  then show ?thesis
    by (simp add: unat_add_lem[THEN iffD1])
qed

lemma mark_acked_props:
  "mark_acked s st = st\<lparr>acked := acked (mark_acked s st), in_flight := in_flight (mark_acked s st)\<rparr>"
  "length (acked (mark_acked s st)) = length (acked st)"
  "k < length (acked st) \<Longrightarrow> acked (mark_acked s st) ! k \<longleftrightarrow> acked st ! k \<or> k = unat s"
  by (cases "k = unat s"; auto simp add: mark_acked_def)+

lemma mark_acked_noop: "acked st ! unat s \<Longrightarrow> mark_acked s st = st"
  by (simp add: mark_acked_def)

lemma ack_upto_result:
  assumes "N \<noteq> -1"
  shows "\<exists>st'. ack_upto N cum s st = Some st'
     \<and> st' = st\<lparr>acked := acked st', in_flight := in_flight st'\<rparr>
     \<and> length (acked st') = length (acked st)
     \<and> (\<forall>k<length (acked st). acked st' ! k \<longleftrightarrow>
          acked st ! k \<or> (unat s \<le> k \<and> k \<le> unat cum \<and> k \<le> unat N))"
proof (induction "unat N + 1 - unat s" arbitrary: s st)
  case 0
  then have "\<not> s \<le> N"
    by (simp add: word_le_nat_alt)
  then have "ack_upto N cum s st = Some st"
    by (subst ack_upto.simps) simp
  moreover have "\<not> (unat s \<le> k \<and> k \<le> unat N)" for k
    using 0 by simp
  ultimately show ?case
    by auto
next
  case (Suc n)
  show ?case
  proof (cases "s \<le> cum \<and> s \<le> N")
    case True
    then have u: "unat (s + 1) = unat s + 1"
      using assms unat_succ_le[of s N] by simp
    then have "n = unat N + 1 - unat (s + 1)"
      using Suc(2) by simp
    from Suc(1)[OF this, of "mark_acked s st"]
    obtain st' where r: "ack_upto N cum (s + 1) (mark_acked s st) = Some st'"
      and f: "st' = (mark_acked s st)\<lparr>acked := acked st', in_flight := in_flight st'\<rparr>"
      and l: "length (acked st') = length (acked (mark_acked s st))"
      and a: "\<forall>k<length (acked (mark_acked s st)). acked st' ! k \<longleftrightarrow>
          acked (mark_acked s st) ! k \<or> (unat (s + 1) \<le> k \<and> k \<le> unat cum \<and> k \<le> unat N)"
      by blast
    have 1: "ack_upto N cum s st = Some st'"
      using True r by (subst ack_upto.simps) simp
    have 2: "st' = st\<lparr>acked := acked st', in_flight := in_flight st'\<rparr>"
      by (subst f, subst mark_acked_props(1)) simp
    have 3: "length (acked st') = length (acked st)"
      using l by (simp add: mark_acked_props(2))
    have su: "unat s \<le> unat cum" "unat s \<le> unat N"
      using True by (simp_all add: word_le_nat_alt)
    have 4: "acked st' ! k \<longleftrightarrow> acked st ! k \<or> (unat s \<le> k \<and> k \<le> unat cum \<and> k \<le> unat N)"
      if "k < length (acked st)" for k
    proof -
      have "acked st' ! k \<longleftrightarrow> (acked st ! k \<or> k = unat s)
          \<or> (unat s + 1 \<le> k \<and> k \<le> unat cum \<and> k \<le> unat N)"
        using a that by (simp add: mark_acked_props(2,3) u)
      then show ?thesis
        using su by auto
    qed
    show ?thesis
      using 1 2 3 4 by blast
  next
    case False
    then have "ack_upto N cum s st = Some st"
      by (subst ack_upto.simps) (simp only: if_False)
    moreover have "\<not> (unat s \<le> k \<and> k \<le> unat cum \<and> k \<le> unat N)" for k
      using False by (auto simp add: word_le_nat_alt)
    ultimately show ?thesis
      by auto
  qed
qed

lemma slide_base_result:
  assumes "N \<noteq> -1"
  shows "\<exists>b. slide_base N st = Some (st\<lparr>base := b\<rparr>) \<and> base st \<le> b
     \<and> (b \<le> N \<longrightarrow> \<not> acked st ! unat b)
     \<and> (\<forall>k. unat (base st) \<le> k \<and> k < unat b \<longrightarrow> acked st ! k)
     \<and> (base st \<le> N + 1 \<longrightarrow> b \<le> N + 1)"
proof (induction "unat N + 1 - unat (base st)" arbitrary: st)
  case 0
  then have "\<not> base st \<le> N"
    by (simp add: word_le_nat_alt)
  then have "slide_base N st = Some st"
    by (subst slide_base.simps) simp
  then have "slide_base N st = Some (st\<lparr>base := base st\<rparr>)"
    by simp
  then show ?case
    using \<open>\<not> base st \<le> N\<close> by (intro exI[of _ "base st"]) auto
next
  case (Suc n)
  show ?case
  proof (cases "base st \<le> N \<and> acked st ! unat (base st)")
    case True
    then have u: "unat (base st + 1) = unat (base st) + 1"
      using assms unat_succ_le[of "base st" N] by simp
    then have "n = unat N + 1 - unat (base (st\<lparr>base := base st + 1\<rparr>))"
      using Suc(2) by simp
    from Suc(1)[OF this]
    obtain b where r: "slide_base N (st\<lparr>base := base st + 1\<rparr>) = Some (st\<lparr>base := b\<rparr>)"
      and m: "base st + 1 \<le> b" and stop: "b \<le> N \<longrightarrow> \<not> acked st ! unat b"
      and all: "\<forall>k. unat (base st + 1) \<le> k \<and> k < unat b \<longrightarrow> acked st ! k"
      and top: "base st + 1 \<le> N + 1 \<longrightarrow> b \<le> N + 1"
      by auto
    have 1: "slide_base N st = Some (st\<lparr>base := b\<rparr>)"
      using True r by (subst slide_base.simps) simp
    have le: "base st \<le> base st + 1"
      using u by (simp add: word_le_nat_alt)
    have N1: "unat (N + 1) = unat N + 1"
      using assms by (rule unat_succ_max)
    have 2: "base st \<le> b"
      using le m by (rule order_trans)
    have 3: "acked st ! k" if "unat (base st) \<le> k \<and> k < unat b" for k
      using that all True u by (cases "k = unat (base st)") simp_all
    have "base st + 1 \<le> N + 1"
      using True u N1 by (simp add: word_le_nat_alt)
    then have 4: "b \<le> N + 1"
      using top by simp
    show ?thesis
      using 1 2 3 4 stop by blast
  next
    case False
    then have "slide_base N st = Some st"
      by (subst slide_base.simps) (simp only: if_False)
    then have "slide_base N st = Some (st\<lparr>base := base st\<rparr>)"
      by simp
    then show ?thesis
      using False by (intro exI[of _ "base st"]) auto
  qed
qed

lemma ack_bit_props:
  "ack_bit N cum m i st = st\<lparr>acked := acked (ack_bit N cum m i st),
      in_flight := in_flight (ack_bit N cum m i st)\<rparr>"
  "length (acked (ack_bit N cum m i st)) = length (acked st)"
  "k < length (acked st) \<Longrightarrow> acked (ack_bit N cum m i st) ! k \<longleftrightarrow>
     acked st ! k \<or> (bit m i \<and> cum + 1 + of_nat i \<le> N \<and> unat (cum + 1 + of_nat i) = k)"
proof -
  show "ack_bit N cum m i st = st\<lparr>acked := acked (ack_bit N cum m i st),
      in_flight := in_flight (ack_bit N cum m i st)\<rparr>"
    by (simp add: ack_bit_def Let_def)
  show "length (acked (ack_bit N cum m i st)) = length (acked st)"
    by (simp add: ack_bit_def Let_def)
  assume k: "k < length (acked st)"
  have b: "m AND push_bit i 1 \<noteq> 0 \<longleftrightarrow> bit m i"
    by (simp only: bit_iff_and_push_bit_not_eq_0)
  show "acked (ack_bit N cum m i st) ! k \<longleftrightarrow>
     acked st ! k \<or> (bit m i \<and> cum + 1 + of_nat i \<le> N \<and> unat (cum + 1 + of_nat i) = k)"
  proof (cases "bit m i \<and> cum + 1 + of_nat i \<le> N \<and> \<not> acked st ! unat (cum + 1 + of_nat i)")
    case True
    then have "acked (ack_bit N cum m i st) = (acked st)[unat (cum + 1 + of_nat i) := True]"
      unfolding ack_bit_def Let_def b by simp
    then show ?thesis
      using k True by (cases "k = unat (cum + 1 + of_nat i)") auto
  next
    case False
    then have "ack_bit N cum m i st = st"
      unfolding ack_bit_def Let_def b by auto
    then show ?thesis
      using False by auto
  qed
qed

lemma ack_fold_result:
  "fold (ack_bit N cum m) [0..<n] st
      = st\<lparr>acked := acked (fold (ack_bit N cum m) [0..<n] st),
           in_flight := in_flight (fold (ack_bit N cum m) [0..<n] st)\<rparr>
   \<and> length (acked (fold (ack_bit N cum m) [0..<n] st)) = length (acked st)
   \<and> (\<forall>k<length (acked st). acked (fold (ack_bit N cum m) [0..<n] st) ! k \<longleftrightarrow>
        acked st ! k
        \<or> (\<exists>i<n. bit m i \<and> cum + 1 + of_nat i \<le> N \<and> unat (cum + 1 + of_nat i) = k))"
proof (induction n)
  case 0
  show ?case by simp
next
  case (Suc n)
  let ?f = "fold (ack_bit N cum m) [0..<n] st"
  have e: "fold (ack_bit N cum m) [0..<Suc n] st = ack_bit N cum m n ?f"
    by simp
  from Suc have f: "?f = st\<lparr>acked := acked ?f, in_flight := in_flight ?f\<rparr>"
    and l: "length (acked ?f) = length (acked st)"
    and a: "\<forall>k<length (acked st). acked ?f ! k \<longleftrightarrow> acked st ! k
        \<or> (\<exists>i<n. bit m i \<and> cum + 1 + of_nat i \<le> N \<and> unat (cum + 1 + of_nat i) = k)"
    by blast+
  have 1: "ack_bit N cum m n ?f = st\<lparr>acked := acked (ack_bit N cum m n ?f),
      in_flight := in_flight (ack_bit N cum m n ?f)\<rparr>"
    by (subst ack_bit_props(1), subst f) simp
  have 2: "length (acked (ack_bit N cum m n ?f)) = length (acked st)"
    by (simp add: ack_bit_props(2) l)
  have 3: "acked (ack_bit N cum m n ?f) ! k \<longleftrightarrow> acked st ! k
        \<or> (\<exists>i<Suc n. bit m i \<and> cum + 1 + of_nat i \<le> N \<and> unat (cum + 1 + of_nat i) = k)"
    if k: "k < length (acked st)" for k
  proof -
    have "acked (ack_bit N cum m n ?f) ! k \<longleftrightarrow> acked ?f ! k
        \<or> (bit m n \<and> cum + 1 + of_nat n \<le> N \<and> unat (cum + 1 + of_nat n) = k)"
      using k l by (intro ack_bit_props(3)) simp
    then show ?thesis
      using a k by (auto simp add: less_Suc_eq)
  qed
  show ?case
    unfolding e using 1 2 3 by blast
qed

lemma ack_masked_result:
  "ack_masked N cum m st = st\<lparr>acked := acked (ack_masked N cum m st),
      in_flight := in_flight (ack_masked N cum m st)\<rparr>"
  "length (acked (ack_masked N cum m st)) = length (acked st)"
  "k < length (acked st) \<Longrightarrow> acked (ack_masked N cum m st) ! k \<longleftrightarrow>
     acked st ! k
     \<or> (\<exists>i<64. bit m i \<and> cum + 1 + of_nat i \<le> N \<and> unat (cum + 1 + of_nat i) = k)"
  using ack_fold_result[of N cum m 64 st] unfolding ack_masked_def by blast+

lemma mask_target_nat:
  assumes i: "i < 64" and k: "unat (cum + 1 + of_nat i :: u32) = k" and kN: "1 \<le> k"
    and wrap: "\<not> unat cum + 1 + i < 2 ^ 32"
  shows "k \<le> unat cum"
proof -
  have c: "unat cum < 2 ^ 32"
    by (rule unat_u32_bound)
  have i32: "i mod 4294967296 = i"
    using i by simp
  have "unat (cum + 1 + of_nat i) = (unat cum + 1 + i) mod 2 ^ 32"
    by (simp add: unat_word_ariths unat_of_nat mod_simps i32)
  also have "\<dots> = unat cum + 1 + i - 2 ^ 32"
  proof -
    have "unat cum + 1 + i - 2 ^ 32 < (2 :: nat) ^ 32"
      using c i by simp
    then have "(unat cum + 1 + i - 2 ^ 32) mod 2 ^ 32 = unat cum + 1 + i - 2 ^ 32"
      by simp
    moreover have "(unat cum + 1 + i) mod 2 ^ 32 = (unat cum + 1 + i - 2 ^ 32) mod 2 ^ 32"
      using wrap by (simp add: le_mod_geq)
    ultimately show ?thesis
      by simp
  qed
  finally have "k = unat cum + 1 + i - 2 ^ 32"
    using k by simp
  then show ?thesis
    using c i wrap by simp
qed


lemma process_ack_steps:
  assumes N: "N \<noteq> -1"
  shows "\<exists>st1 b1 st3 b2.
      process_ack N cum m st = Some (st3\<lparr>base := b2\<rparr>)
    \<and> st1 = st\<lparr>acked := acked st1, in_flight := in_flight st1\<rparr>
    \<and> length (acked st1) = length (acked st)
    \<and> (\<forall>k<length (acked st). acked st1 ! k \<longleftrightarrow>
          acked st ! k \<or> (unat (base st) \<le> k \<and> k \<le> unat cum \<and> k \<le> unat N))
    \<and> base st \<le> b1 \<and> (b1 \<le> N \<longrightarrow> \<not> acked st1 ! unat b1)
    \<and> (\<forall>k. unat (base st) \<le> k \<and> k < unat b1 \<longrightarrow> acked st1 ! k)
    \<and> (base st \<le> N + 1 \<longrightarrow> b1 \<le> N + 1)
    \<and> st3 = st\<lparr>base := b1, acked := acked st3, in_flight := in_flight st3\<rparr>
    \<and> length (acked st3) = length (acked st)
    \<and> (\<forall>k<length (acked st). acked st3 ! k \<longleftrightarrow> acked st1 ! k
          \<or> (\<exists>i<64. bit m i \<and> cum + 1 + of_nat i \<le> N \<and> unat (cum + 1 + of_nat i) = k))
    \<and> b1 \<le> b2 \<and> (b2 \<le> N \<longrightarrow> \<not> acked st3 ! unat b2)
    \<and> (\<forall>k. unat b1 \<le> k \<and> k < unat b2 \<longrightarrow> acked st3 ! k)
    \<and> (b1 \<le> N + 1 \<longrightarrow> b2 \<le> N + 1)"
proof -
  from ack_upto_result[OF N, of cum "base st" st]
  obtain st1 where r1: "ack_upto N cum (base st) st = Some st1"
    and f1: "st1 = st\<lparr>acked := acked st1, in_flight := in_flight st1\<rparr>"
    and l1: "length (acked st1) = length (acked st)"
    and a1: "\<forall>k<length (acked st). acked st1 ! k \<longleftrightarrow>
          acked st ! k \<or> (unat (base st) \<le> k \<and> k \<le> unat cum \<and> k \<le> unat N)"
    by blast
  have bs1: "base st1 = base st"
    by (subst f1) simp
  from slide_base_result[OF N, of st1]
  obtain b1 where r2: "slide_base N st1 = Some (st1\<lparr>base := b1\<rparr>)"
    and m1: "base st \<le> b1" and stop1: "b1 \<le> N \<longrightarrow> \<not> acked st1 ! unat b1"
    and all1: "\<forall>k. unat (base st) \<le> k \<and> k < unat b1 \<longrightarrow> acked st1 ! k"
    and top1: "base st \<le> N + 1 \<longrightarrow> b1 \<le> N + 1"
    unfolding bs1 by blast
  define st2 where "st2 = st1\<lparr>base := b1\<rparr>"
  define st3 where "st3 = ack_masked N cum m st2"
  have f3: "st3 = st\<lparr>base := b1, acked := acked st3, in_flight := in_flight st3\<rparr>"
    unfolding st3_def by (subst ack_masked_result(1), subst st2_def, subst f1) simp
  have l3: "length (acked st3) = length (acked st)"
    unfolding st3_def by (simp add: ack_masked_result(2) st2_def l1)
  have a3: "\<forall>k<length (acked st). acked st3 ! k \<longleftrightarrow> acked st1 ! k
          \<or> (\<exists>i<64. bit m i \<and> cum + 1 + of_nat i \<le> N \<and> unat (cum + 1 + of_nat i) = k)"
  proof (intro allI impI)
    fix k assume "k < length (acked st)"
    then have "k < length (acked st2)"
      by (simp add: st2_def l1)
    from ack_masked_result(3)[OF this, of N cum m]
    show "acked st3 ! k \<longleftrightarrow> acked st1 ! k
          \<or> (\<exists>i<64. bit m i \<and> cum + 1 + of_nat i \<le> N \<and> unat (cum + 1 + of_nat i) = k)"
      by (simp add: st3_def st2_def)
  qed
  have bs3: "base st3 = b1"
    by (subst f3) simp
  from slide_base_result[OF N, of st3]
  obtain b2 where r3: "slide_base N st3 = Some (st3\<lparr>base := b2\<rparr>)"
    and m2: "b1 \<le> b2" and stop2: "b2 \<le> N \<longrightarrow> \<not> acked st3 ! unat b2"
    and all2: "\<forall>k. unat b1 \<le> k \<and> k < unat b2 \<longrightarrow> acked st3 ! k"
    and top2: "b1 \<le> N + 1 \<longrightarrow> b2 \<le> N + 1"
    unfolding bs3 by blast
  have "process_ack N cum m st = Some (st3\<lparr>base := b2\<rparr>)"
    by (simp add: process_ack_def r1 r2 r3[unfolded st3_def st2_def] st3_def st2_def)
  then show ?thesis
    using f1 l1 a1 m1 stop1 all1 top1 f3 l3 a3 m2 stop2 all2 top2 by blast
qed


lemma process_ack_result:
  assumes N: "N \<noteq> -1" and inv: "ack_inv N st"
  shows "\<exists>st'. process_ack N cum m st = Some st'
    \<and> st' = st\<lparr>base := base st', acked := acked st', in_flight := in_flight st'\<rparr>
    \<and> (\<forall>k. 1 \<le> k \<and> k \<le> unat N \<longrightarrow>
          (acked st' ! k \<longleftrightarrow> acked st ! k \<or> (unat (base st) \<le> k \<and> k \<le> unat cum)
             \<or> (\<exists>i<64. bit m i \<and> k = unat cum + 1 + i)))
    \<and> base st \<le> base st' \<and> ack_inv N st'"
proof -
  have len: "length (acked st) = unat N + 1"
    and b1: "1 \<le> unat (base st)" and bN: "unat (base st) \<le> unat N + 1"
    and below: "\<forall>k. 1 \<le> k \<and> k < unat (base st) \<longrightarrow> acked st ! k"
    using inv by (simp_all add: ack_inv_def base_is_least_def)
  have N1: "unat (N + 1) = unat N + 1"
    using N by (rule unat_succ_max)
  have bw: "base st \<le> N + 1"
    using bN by (simp add: word_le_nat_alt N1)
  obtain st1 c1 st3 c2 where H: "process_ack N cum m st = Some (st3\<lparr>base := c2\<rparr>)
    \<and> st1 = st\<lparr>acked := acked st1, in_flight := in_flight st1\<rparr>
    \<and> length (acked st1) = length (acked st)
    \<and> (\<forall>k<length (acked st). acked st1 ! k \<longleftrightarrow>
          acked st ! k \<or> (unat (base st) \<le> k \<and> k \<le> unat cum \<and> k \<le> unat N))
    \<and> base st \<le> c1 \<and> (c1 \<le> N \<longrightarrow> \<not> acked st1 ! unat c1)
    \<and> (\<forall>k. unat (base st) \<le> k \<and> k < unat c1 \<longrightarrow> acked st1 ! k)
    \<and> (base st \<le> N + 1 \<longrightarrow> c1 \<le> N + 1)
    \<and> st3 = st\<lparr>base := c1, acked := acked st3, in_flight := in_flight st3\<rparr>
    \<and> length (acked st3) = length (acked st)
    \<and> (\<forall>k<length (acked st). acked st3 ! k \<longleftrightarrow> acked st1 ! k
          \<or> (\<exists>i<64. bit m i \<and> cum + 1 + of_nat i \<le> N \<and> unat (cum + 1 + of_nat i) = k))
    \<and> c1 \<le> c2 \<and> (c2 \<le> N \<longrightarrow> \<not> acked st3 ! unat c2)
    \<and> (\<forall>k. unat c1 \<le> k \<and> k < unat c2 \<longrightarrow> acked st3 ! k)
    \<and> (c1 \<le> N + 1 \<longrightarrow> c2 \<le> N + 1)"
    using process_ack_steps[OF N, of cum m st] by (elim exE) (rule that)
  from H have r: "process_ack N cum m st = Some (st3\<lparr>base := c2\<rparr>)"
    and a1: "\<forall>k<length (acked st). acked st1 ! k \<longleftrightarrow>
          acked st ! k \<or> (unat (base st) \<le> k \<and> k \<le> unat cum \<and> k \<le> unat N)"
    and m1: "base st \<le> c1"
    and all1: "\<forall>k. unat (base st) \<le> k \<and> k < unat c1 \<longrightarrow> acked st1 ! k"
    and top1: "base st \<le> N + 1 \<longrightarrow> c1 \<le> N + 1"
    and f3: "st3 = st\<lparr>base := c1, acked := acked st3, in_flight := in_flight st3\<rparr>"
    and l3: "length (acked st3) = length (acked st)"
    and a3: "\<forall>k<length (acked st). acked st3 ! k \<longleftrightarrow> acked st1 ! k
          \<or> (\<exists>i<64. bit m i \<and> cum + 1 + of_nat i \<le> N \<and> unat (cum + 1 + of_nat i) = k)"
    and m2: "c1 \<le> c2" and stop2: "c2 \<le> N \<longrightarrow> \<not> acked st3 ! unat c2"
    and all2: "\<forall>k. unat c1 \<le> k \<and> k < unat c2 \<longrightarrow> acked st3 ! k"
    and top2: "c1 \<le> N + 1 \<longrightarrow> c2 \<le> N + 1"
    by simp_all
  define st' where "st' = st3\<lparr>base := c2\<rparr>"
  have ak: "acked st' = acked st3" and bs: "base st' = c2"
    by (simp_all add: st'_def)
  have f: "st' = st\<lparr>base := base st', acked := acked st', in_flight := in_flight st'\<rparr>"
    unfolding st'_def by (subst f3) simp
  have c2N: "unat c2 \<le> unat N + 1"
    using top1 top2 bw by (simp add: word_le_nat_alt N1)
  have mono: "unat (base st) \<le> unat c1" "unat c1 \<le> unat c2"
    using m1 m2 by (simp_all add: word_le_nat_alt)
  have word: "acked st3 ! k \<longleftrightarrow> acked st ! k \<or> (unat (base st) \<le> k \<and> k \<le> unat cum)
      \<or> (\<exists>i<64. bit m i \<and> cum + 1 + of_nat i \<le> N \<and> unat (cum + 1 + of_nat i) = k)"
    if "k \<le> unat N" for k
    using that a1 a3 len by auto
  have chr: "acked st3 ! k \<longleftrightarrow> acked st ! k \<or> (unat (base st) \<le> k \<and> k \<le> unat cum)
      \<or> (\<exists>i<64. bit m i \<and> k = unat cum + 1 + i)"
    if k: "1 \<le> k \<and> k \<le> unat N" for k
  proof -
    have kN: "k \<le> unat N" and k1: "1 \<le> k"
      using k by simp_all
    have "\<exists>i<64. bit m i \<and> cum + 1 + of_nat i \<le> N \<and> unat (cum + 1 + of_nat i) = k"
      if h: "\<exists>i<64. bit m i \<and> k = unat cum + 1 + i"
    proof -
      from h obtain i where i: "i < 64" "bit m i" "k = unat cum + 1 + i"
        by blast
      have "unat N < 2 ^ 32"
        by (rule unat_u32_bound)
      then have "unat cum + 1 + i < 2 ^ 32"
        using kN i(3) by simp
      then have "unat (cum + 1 + of_nat i) = k"
        using i(3) by (simp only: unat_seq_plus)
      then show ?thesis
        using i(1,2) kN by (auto simp add: word_le_nat_alt)
    qed
    moreover have "acked st ! k \<or> (unat (base st) \<le> k \<and> k \<le> unat cum)
        \<or> (\<exists>i<64. bit m i \<and> k = unat cum + 1 + i)"
      if h: "\<exists>i<64. bit m i \<and> cum + 1 + of_nat i \<le> N \<and> unat (cum + 1 + of_nat i) = k"
    proof -
      from h obtain i where i: "i < 64" "bit m i" "unat (cum + 1 + of_nat i) = k"
        by blast
      show ?thesis
      proof (cases "unat cum + 1 + i < 2 ^ 32")
        case True
        then have "k = unat cum + 1 + i"
          using i(3) by (simp only: unat_seq_plus)
        then show ?thesis
          using i(1,2) by blast
      next
        case False
        from mask_target_nat[OF i(1) i(3) k1 False] have "k \<le> unat cum" .
        then show ?thesis
          using below k1 by (cases "unat (base st) \<le> k") auto
      qed
    qed
    ultimately show ?thesis
      using word[OF kN] by blast
  qed
  have least: "base_is_least (acked st3) (unat N) (unat c2)"
    unfolding base_is_least_def
  proof (intro conjI allI impI)
    show "1 \<le> unat c2"
      using b1 mono by simp
    show "unat c2 \<le> unat N + 1"
      by (rule c2N)
    show "acked st3 ! k" if "1 \<le> k \<and> k < unat c2" for k
    proof -
      have kl: "k < length (acked st)" and kN: "k \<le> unat N"
        using that c2N len by simp_all
      consider "k < unat (base st)" | "unat (base st) \<le> k" "k < unat c1" | "unat c1 \<le> k"
        by linarith
      then show ?thesis
      proof cases
        case 1
        then have "acked st ! k"
          using below that by simp
        then show ?thesis
          using word[OF kN] by simp
      next
        case 2
        then have "acked st1 ! k"
          using all1 by simp
        then show ?thesis
          using a3 kl by simp
      next
        case 3
        then show ?thesis
          using all2 that by simp
      qed
    qed
    show "\<not> acked st3 ! unat c2" if "unat c2 \<le> unat N"
      using that stop2 by (simp add: word_le_nat_alt)
  qed
  have "ack_inv N st'"
    unfolding ack_inv_def ak bs using least l3 len by simp
  moreover have "base st \<le> base st'"
    unfolding bs using m1 m2 by (rule order_trans)
  ultimately show ?thesis
    using r f chr unfolding st'_def[symmetric] ak[symmetric] by blast
qed

lemma ack_upto_noop:
  assumes "N \<noteq> -1"
    and "\<forall>k. unat s \<le> k \<and> k \<le> unat cum \<and> k \<le> unat N \<longrightarrow> acked st ! k"
  shows "ack_upto N cum s st = Some st"
  using assms(2)
proof (induction "unat N + 1 - unat s" arbitrary: s)
  case 0
  then have "\<not> s \<le> N"
    by (simp add: word_le_nat_alt)
  then show ?case
    by (subst ack_upto.simps) simp
next
  case (Suc n)
  show ?case
  proof (cases "s \<le> cum \<and> s \<le> N")
    case True
    then have u: "unat (s + 1) = unat s + 1"
      using assms(1) unat_succ_le[of s N] by simp
    have "acked st ! unat s"
      using True Suc(3) by (simp add: word_le_nat_alt)
    then have m: "mark_acked s st = st"
      by (rule mark_acked_noop)
    have "ack_upto N cum (s + 1) st = Some st"
      using Suc(2,3) u by (intro Suc(1)) simp_all
    then show ?thesis
      using True m by (subst ack_upto.simps) simp
  next
    case False
    then show ?thesis
      by (subst ack_upto.simps) (simp only: if_False)
  qed
qed

lemma slide_base_noop: "\<not> (base st \<le> N \<and> acked st ! unat (base st)) \<Longrightarrow> slide_base N st = Some st"
  by (subst slide_base.simps) (simp only: if_False)

lemma ack_bit_noop:
  assumes "bit m i \<and> cum + 1 + of_nat i \<le> N \<longrightarrow> acked st ! unat (cum + 1 + of_nat i)"
  shows "ack_bit N cum m i st = st"
proof -
  have b: "m AND push_bit i 1 \<noteq> 0 \<longleftrightarrow> bit m i"
    by (simp only: bit_iff_and_push_bit_not_eq_0)
  show ?thesis
    unfolding ack_bit_def Let_def b using assms by auto
qed

lemma ack_fold_noop:
  assumes "\<forall>i<n. bit m i \<and> cum + 1 + of_nat i \<le> N \<longrightarrow> acked st ! unat (cum + 1 + of_nat i)"
  shows "fold (ack_bit N cum m) [0..<n] st = st"
  using assms
proof (induction n)
  case 0
  show ?case by simp
next
  case (Suc n)
  then have "fold (ack_bit N cum m) [0..<n] st = st"
    by simp
  moreover have "ack_bit N cum m n st = st"
    using Suc.prems by (intro ack_bit_noop) simp
  ultimately show ?case
    by simp
qed

lemma process_ack_idem:
  assumes N: "N \<noteq> -1" and len: "length (acked st) = unat N + 1"
    and r: "process_ack N cum m st = Some st'"
  shows "process_ack N cum m st' = Some st'"
proof -
  obtain st1 c1 st3 c2 where H: "process_ack N cum m st = Some (st3\<lparr>base := c2\<rparr>)
    \<and> st1 = st\<lparr>acked := acked st1, in_flight := in_flight st1\<rparr>
    \<and> length (acked st1) = length (acked st)
    \<and> (\<forall>k<length (acked st). acked st1 ! k \<longleftrightarrow>
          acked st ! k \<or> (unat (base st) \<le> k \<and> k \<le> unat cum \<and> k \<le> unat N))
    \<and> base st \<le> c1 \<and> (c1 \<le> N \<longrightarrow> \<not> acked st1 ! unat c1)
    \<and> (\<forall>k. unat (base st) \<le> k \<and> k < unat c1 \<longrightarrow> acked st1 ! k)
    \<and> (base st \<le> N + 1 \<longrightarrow> c1 \<le> N + 1)
    \<and> st3 = st\<lparr>base := c1, acked := acked st3, in_flight := in_flight st3\<rparr>
    \<and> length (acked st3) = length (acked st)
    \<and> (\<forall>k<length (acked st). acked st3 ! k \<longleftrightarrow> acked st1 ! k
          \<or> (\<exists>i<64. bit m i \<and> cum + 1 + of_nat i \<le> N \<and> unat (cum + 1 + of_nat i) = k))
    \<and> c1 \<le> c2 \<and> (c2 \<le> N \<longrightarrow> \<not> acked st3 ! unat c2)
    \<and> (\<forall>k. unat c1 \<le> k \<and> k < unat c2 \<longrightarrow> acked st3 ! k)
    \<and> (c1 \<le> N + 1 \<longrightarrow> c2 \<le> N + 1)"
    using process_ack_steps[OF N, of cum m st] by (elim exE) (rule that)
  from H have r': "process_ack N cum m st = Some (st3\<lparr>base := c2\<rparr>)"
    and a1: "\<forall>k<length (acked st). acked st1 ! k \<longleftrightarrow>
          acked st ! k \<or> (unat (base st) \<le> k \<and> k \<le> unat cum \<and> k \<le> unat N)"
    and m1: "base st \<le> c1"
    and a3: "\<forall>k<length (acked st). acked st3 ! k \<longleftrightarrow> acked st1 ! k
          \<or> (\<exists>i<64. bit m i \<and> cum + 1 + of_nat i \<le> N \<and> unat (cum + 1 + of_nat i) = k)"
    and m2: "c1 \<le> c2" and stop2: "c2 \<le> N \<longrightarrow> \<not> acked st3 ! unat c2"
    by simp_all
  have st': "st' = st3\<lparr>base := c2\<rparr>"
    using r r' by simp
  have ak: "acked st' = acked st3" and bs: "base st' = c2"
    by (simp_all add: st')
  have mono: "unat (base st) \<le> unat c2"
    using m1 m2 by (simp add: word_le_nat_alt)
  have 1: "ack_upto N cum (base st') st' = Some st'"
  proof (rule ack_upto_noop[OF N], intro allI impI)
    fix k assume k: "unat (base st') \<le> k \<and> k \<le> unat cum \<and> k \<le> unat N"
    then have "k < length (acked st)" and "unat (base st) \<le> k"
      using len mono bs by simp_all
    then show "acked st' ! k"
      using k a1 a3 unfolding ak by simp
  qed
  have 2: "slide_base N st' = Some st'"
    using stop2 by (intro slide_base_noop) (simp add: ak bs)
  have 3: "ack_masked N cum m st' = st'"
    unfolding ack_masked_def
  proof (rule ack_fold_noop, intro allI impI)
    fix i assume i: "i < 64"
      and b: "bit m i \<and> cum + 1 + of_nat i \<le> N"
    then have "unat (cum + 1 + of_nat i) < length (acked st)"
      using len by (simp add: word_le_nat_alt)
    then show "acked st' ! unat (cum + 1 + of_nat i)"
      unfolding ak using a3 i b by blast
  qed
  show ?thesis
    by (simp add: process_ack_def 1 2 3)
qed

lemma sender_recv_none: "rcvd e = None \<Longrightarrow> sender_recv c e st = Some st"
  by (simp add: sender_recv_def)

lemma sender_recv_short:
  assumes "rcvd e = Some d" and "length d < HDR"
  shows "sender_recv c e st = Some st"
proof -
  obtain n b where nb: "recv_into 128 (abuf0 e) d = (n, b)"
    by (cases "recv_into 128 (abuf0 e) d")
  have "n < HDR"
    using recv_into_n[of 128 "abuf0 e" d] nb assms(2) by simp
  then show ?thesis
    by (simp add: sender_recv_def assms(1) nb)
qed

lemma sender_recv_cases:
  "sender_recv c e st = Some st
   \<or> (\<exists>d. rcvd e = Some d \<and> HDR \<le> length d
        \<and> sender_recv c e st = process_ack (cfg_total_segs c)
             (ack_cum_field (snd (recv_into 128 (abuf0 e) d)))
             (ack_mask_field (snd (recv_into 128 (abuf0 e) d))) st)"
proof (cases "rcvd e")
  case None
  then show ?thesis by (simp add: sender_recv_none)
next
  case (Some d)
  obtain n b where nb: "recv_into 128 (abuf0 e) d = (n, b)"
    by (cases "recv_into 128 (abuf0 e) d")
  have n: "n = min (length d) 128"
    using recv_into_n[of 128 "abuf0 e" d] nb by simp
  show ?thesis
  proof (cases "HDR \<le> n \<and> hdr_type b = PKT_ACK \<and> unat (hdr_len b) = ACKLEN")
    case True
    then have "HDR \<le> length d"
      using n by simp
    moreover have "sender_recv c e st
        = process_ack (cfg_total_segs c) (ack_cum_field b) (ack_mask_field b) st"
      using True by (simp add: sender_recv_def Some nb)
    ultimately show ?thesis
      using Some nb by simp
  next
    case False
    then have "sender_recv c e st = Some st"
      by (auto simp add: sender_recv_def Some nb)
    then show ?thesis by simp
  qed
qed

lemma sender_recv_idem:
  assumes N: "cfg_total_segs c \<noteq> -1" and len: "length (acked st) = unat (cfg_total_segs c) + 1"
    and r: "sender_recv c e st = Some st'"
  shows "sender_recv c e st' = Some st'"
proof -
  from sender_recv_cases[of c e st] show ?thesis
  proof
    assume "sender_recv c e st = Some st"
    then show ?thesis using r by simp
  next
    assume "\<exists>d. rcvd e = Some d \<and> HDR \<le> length d
        \<and> sender_recv c e st = process_ack (cfg_total_segs c)
             (ack_cum_field (snd (recv_into 128 (abuf0 e) d)))
             (ack_mask_field (snd (recv_into 128 (abuf0 e) d))) st"
    then obtain d where d: "rcvd e = Some d"
      and p: "sender_recv c e st = process_ack (cfg_total_segs c)
             (ack_cum_field (snd (recv_into 128 (abuf0 e) d)))
             (ack_mask_field (snd (recv_into 128 (abuf0 e) d))) st"
      by blast
    let ?cum = "ack_cum_field (snd (recv_into 128 (abuf0 e) d))"
    let ?m = "ack_mask_field (snd (recv_into 128 (abuf0 e) d))"
    have 1: "process_ack (cfg_total_segs c) ?cum ?m st = Some st'"
      using p r by simp
    then have 2: "process_ack (cfg_total_segs c) ?cum ?m st' = Some st'"
      using N len by (intro process_ack_idem)
    obtain n b where nb: "recv_into 128 (abuf0 e) d = (n, b)"
      by (cases "recv_into 128 (abuf0 e) d")
    have "sender_recv c e st' = Some st' \<or> sender_recv c e st' = process_ack (cfg_total_segs c) ?cum ?m st'"
      by (auto simp add: sender_recv_def d nb)
    then show ?thesis
      using 2 by auto
  qed
qed

lemma ack_inv_init: "ack_inv (cfg_total_segs c) (s_init c)"
  by (simp add: ack_inv_def base_is_least_def s_init_def)

section \<open>The sender: the loops of an iteration\<close>

lemma transmit_new_fields:
  "next_to_send (transmit_new c e st) = next_to_send st + 1"
  "acked (transmit_new c e st) = acked st"
  "base (transmit_new c e st) = base st"
  "length (tx_cnt (transmit_new c e st)) = length (tx_cnt st)"
  "tx_cnt (transmit_new c e st)
     = (if send_ok e (next_to_send st)
        then (tx_cnt st)[unat (next_to_send st) := tx_cnt st ! unat (next_to_send st) + 1]
        else tx_cnt st)"
  by (simp_all add: transmit_new_def Let_def)

lemma send_new_rule:
  assumes N: "cfg_total_segs c \<noteq> -1" and I: "I st"
    and step: "\<And>s. I s \<Longrightarrow> next_to_send s \<le> cfg_total_segs c \<Longrightarrow> I (transmit_new c e s)"
  shows "\<exists>st'. send_new c e st = Some st' \<and> I st'"
  using I
proof (induction "unat (cfg_total_segs c) + 1 - unat (next_to_send st)" arbitrary: st)
  case 0
  then have "\<not> next_to_send st \<le> cfg_total_segs c"
    by (simp add: word_le_nat_alt)
  then have "send_new c e st = Some st"
    by (subst send_new.simps) simp
  then show ?case
    using 0 by simp
next
  case (Suc n)
  show ?case
  proof (cases "next_to_send st \<le> cfg_total_segs c
      \<and> sint (next_to_send st - base st) < cfg_win c")
    case True
    then have u: "unat (next_to_send st + 1) = unat (next_to_send st) + 1"
      using N unat_succ_le[of "next_to_send st" "cfg_total_segs c"] by simp
    have "n = unat (cfg_total_segs c) + 1 - unat (next_to_send (transmit_new c e st))"
      using Suc(2) u by (simp add: transmit_new_fields)
    moreover have "I (transmit_new c e st)"
      using Suc(3) True by (intro step) simp_all
    ultimately obtain st' where "send_new c e (transmit_new c e st) = Some st'" and "I st'"
      using Suc(1) by blast
    moreover have "send_new c e st = send_new c e (transmit_new c e st)"
      using True by (subst send_new.simps) simp
    ultimately show ?thesis
      by simp
  next
    case False
    then have "send_new c e st = Some st"
      by (subst send_new.simps) (simp only: if_False)
    then show ?thesis
      using Suc(3) by simp
  qed
qed

lemma resend_fields:
  "next_to_send (resend c t s st) = next_to_send st"
  "acked (resend c t s st) = acked st"
  "base (resend c t s st) = base st"
  "length (tx_cnt (resend c t s st)) = length (tx_cnt st)"
  "tx_cnt (resend c t s st) = (tx_cnt st)[unat s := tx_cnt st ! unat s + 1]"
  "sent_data (resend c t s st) = data_pkt c s # sent_data st"
  by (simp_all add: resend_def)

lemma retransmit_rule:
  assumes I: "I st"
    and step: "\<And>s u. I u \<Longrightarrow> s < next_to_send u \<Longrightarrow> s \<noteq> 0 \<Longrightarrow> s \<le> cfg_total_segs c
       \<Longrightarrow> \<not> acked u ! unat s \<Longrightarrow> tx_cnt u ! unat s < cfg_retries c \<Longrightarrow> I (resend c t s u)"
  shows "case retransmit rnd c t s st of Failed st' \<Rightarrow> I st' | Running st' \<Rightarrow> I st'"
  using assms
proof (induction rnd c t s st rule: retransmit.induct)
  case (1 rnd c t s st)
  note I = "1.prems"(1) and step = "1.prems"(2)
  show ?case
  proof (cases "s < next_to_send st")
    case False
    then show ?thesis
      using I by (subst retransmit.simps) simp
  next
    case lt: True
    show ?thesis
    proof (cases "s = 0 \<or> s > cfg_total_segs c")
      case True
      then have "retransmit rnd c t s st = retransmit rnd c t (s + 1) st"
        using lt by (subst retransmit.simps) simp
      then show ?thesis
        using "1.IH"(1)[OF lt True I step] by simp
    next
      case rng: False
      show ?thesis
      proof (cases "acked st ! unat s")
        case True
        then have "retransmit rnd c t s st = retransmit rnd c t (s + 1) st"
          using lt rng by (subst retransmit.simps) simp
        then show ?thesis
          using "1.IH"(2)[OF lt rng True I step] by simp
      next
        case na: False
        show ?thesis
        proof (cases "tx_cnt st ! unat s \<ge> cfg_retries c")
          case True
          then have "retransmit rnd c t s st = Failed st"
            using lt rng na by (subst retransmit.simps) simp
          then show ?thesis
            using I by simp
        next
          case lim: False
          show ?thesis
          proof (cases "timed_out rnd c t (sent_ts st ! unat s)")
            case True
            have "s \<noteq> 0" "s \<le> cfg_total_segs c" "tx_cnt st ! unat s < cfg_retries c"
              using rng lim by auto
            then have "I (resend c t s st)"
              using I lt na by (intro step)
            moreover have "retransmit rnd c t s st = retransmit rnd c t (s + 1) (resend c t s st)"
              using lt rng na lim True by (subst retransmit.simps) simp
            ultimately show ?thesis
              using "1.IH"(3)[OF lt rng na lim True _ step] by simp
          next
            case False
            then have "retransmit rnd c t s st = retransmit rnd c t (s + 1) st"
              using lt rng na lim by (subst retransmit.simps) simp
            then show ?thesis
              using "1.IH"(4)[OF lt rng na lim False I step] by simp
          qed
        qed
      qed
    qed
  qed
qed

section \<open>The sender: invariants of the bulk loop\<close>

lemma ack_inv_cong:
  "acked st' = acked st \<Longrightarrow> base st' = base st \<Longrightarrow> ack_inv N st' = ack_inv N st"
  by (simp add: ack_inv_def)

lemma tx_inv_transmit_new:
  assumes inv: "tx_inv c st" and R: "1 \<le> cfg_retries c"
    and N: "cfg_total_segs c \<noteq> -1" and le: "next_to_send st \<le> cfg_total_segs c"
  shows "tx_inv c (transmit_new c e st)"
proof -
  let ?n = "unat (next_to_send st)" and ?N = "unat (cfg_total_segs c)"
  have u: "unat (next_to_send st + 1) = ?n + 1"
    using le N by (rule unat_succ_le)
  have nN: "?n \<le> ?N"
    using le by (simp add: word_le_nat_alt)
  have len: "length (tx_cnt st) = ?N + 1" and n1: "1 \<le> ?n"
    and zero: "\<forall>k. ?n \<le> k \<and> k \<le> ?N \<longrightarrow> tx_cnt st ! k = 0"
    and bnd: "\<forall>k. k \<le> ?N \<longrightarrow> 0 \<le> tx_cnt st ! k \<and> tx_cnt st ! k \<le> cfg_retries c"
    using inv by (simp_all add: tx_inv_def)
  have z: "tx_cnt st ! ?n = 0"
    using zero nN by simp
  have t: "tx_cnt (transmit_new c e st) ! k
      = (if k = ?n \<and> send_ok e (next_to_send st) then 1 else tx_cnt st ! k)" if "k \<le> ?N" for k
    using that len nN z by (simp add: transmit_new_fields nth_list_update)
  show ?thesis
    unfolding tx_inv_def
    using len n1 nN zero bnd R by (simp add: transmit_new_fields(1,4) u t)
qed

lemma tx_inv_resend:
  assumes inv: "tx_inv c st" and s: "s < next_to_send st" "s \<le> cfg_total_segs c"
    and lim: "tx_cnt st ! unat s < cfg_retries c"
  shows "tx_inv c (resend c t s st)"
proof -
  let ?n = "unat (next_to_send st)" and ?N = "unat (cfg_total_segs c)"
  have sn: "unat s < ?n" and sN: "unat s \<le> ?N"
    using s by (simp_all add: word_less_nat_alt word_le_nat_alt)
  have len: "length (tx_cnt st) = ?N + 1"
    and zero: "\<forall>k. ?n \<le> k \<and> k \<le> ?N \<longrightarrow> tx_cnt st ! k = 0"
    and bnd: "\<forall>k. k \<le> ?N \<longrightarrow> 0 \<le> tx_cnt st ! k \<and> tx_cnt st ! k \<le> cfg_retries c"
    using inv by (simp_all add: tx_inv_def)
  have t: "tx_cnt (resend c t s st) ! k
      = (if k = unat s then tx_cnt st ! k + 1 else tx_cnt st ! k)" if "k \<le> ?N" for k
    using that len sN by (simp add: resend_fields nth_list_update)
  have z: "tx_cnt (resend c t s st) ! k = 0" if "?n \<le> k \<and> k \<le> ?N" for k
    using that sn zero by (simp add: t)
  have b: "0 \<le> tx_cnt (resend c t s st) ! k \<and> tx_cnt (resend c t s st) ! k \<le> cfg_retries c"
    if "k \<le> ?N" for k
    using that bnd lim by (simp add: t)
  show ?thesis
    unfolding tx_inv_def using inv z b by (simp add: resend_fields(1,4) tx_inv_def)
qed

lemma tx_inv_cong:
  "tx_cnt st' = tx_cnt st \<Longrightarrow> next_to_send st' = next_to_send st \<Longrightarrow> tx_inv c st' = tx_inv c st"
  by (simp add: tx_inv_def)

lemma sender_recv_result:
  assumes N: "cfg_total_segs c \<noteq> -1" and inv: "ack_inv (cfg_total_segs c) st"
  shows "\<exists>st'. sender_recv c e st = Some st'
    \<and> tx_cnt st' = tx_cnt st \<and> sent_ts st' = sent_ts st
    \<and> next_to_send st' = next_to_send st \<and> sent_data st' = sent_data st
    \<and> base st \<le> base st' \<and> ack_inv (cfg_total_segs c) st'"
proof -
  from sender_recv_cases[of c e st] show ?thesis
  proof
    assume "sender_recv c e st = Some st"
    then show ?thesis
      using inv by simp
  next
    assume "\<exists>d. rcvd e = Some d \<and> HDR \<le> length d
        \<and> sender_recv c e st = process_ack (cfg_total_segs c)
             (ack_cum_field (snd (recv_into 128 (abuf0 e) d)))
             (ack_mask_field (snd (recv_into 128 (abuf0 e) d))) st"
    then obtain cum m where p: "sender_recv c e st = process_ack (cfg_total_segs c) cum m st"
      by blast
    obtain st' where H: "process_ack (cfg_total_segs c) cum m st = Some st'
      \<and> st' = st\<lparr>base := base st', acked := acked st', in_flight := in_flight st'\<rparr>
      \<and> (\<forall>k. 1 \<le> k \<and> k \<le> unat (cfg_total_segs c) \<longrightarrow>
          (acked st' ! k \<longleftrightarrow> acked st ! k \<or> (unat (base st) \<le> k \<and> k \<le> unat cum)
             \<or> (\<exists>i<64. bit m i \<and> k = unat cum + 1 + i)))
      \<and> base st \<le> base st' \<and> ack_inv (cfg_total_segs c) st'"
      using process_ack_result[OF N inv, of cum m] by (elim exE) (rule that)
    then have f: "st' = st\<lparr>base := base st', acked := acked st', in_flight := in_flight st'\<rparr>"
      by (rule conjunct2[THEN conjunct1])
    have "tx_cnt st' = tx_cnt st" "sent_ts st' = sent_ts st" "next_to_send st' = next_to_send st"
      "sent_data st' = sent_data st"
      by (subst f, simp)+
    moreover have "sender_recv c e st = Some st'" "base st \<le> base st'"
      "ack_inv (cfg_total_segs c) st'"
      using H p by simp_all
    ultimately show ?thesis
      by (intro exI[of _ st']) simp
  qed
qed

lemma sender_iter_result:
  assumes N: "cfg_total_segs c \<noteq> -1" and R: "1 \<le> cfg_retries c"
    and ai: "ack_inv (cfg_total_segs c) st" and ti: "tx_inv c st"
  shows "\<exists>r. sender_iter rnd c e st = Some r \<and> ack_inv (cfg_total_segs c) (iter_state r)
    \<and> tx_inv c (iter_state r) \<and> base st \<le> base (iter_state r)"
proof -
  let ?N = "cfg_total_segs c"
  define I1 where "I1 = (\<lambda>s. tx_inv c s \<and> base s = base st \<and> acked s = acked st)"
  have "\<exists>st1. send_new c e st = Some st1 \<and> I1 st1"
  proof (rule send_new_rule[OF N])
    show "I1 st"
      using ti by (simp add: I1_def)
    show "I1 (transmit_new c e s)" if "I1 s" "next_to_send s \<le> ?N" for s
      using that R N by (simp add: I1_def tx_inv_transmit_new transmit_new_fields)
  qed
  then obtain st1 where r1: "send_new c e st = Some st1" and t1: "tx_inv c st1"
    and b1: "base st1 = base st" and a1: "acked st1 = acked st"
    by (auto simp add: I1_def)
  have ai1: "ack_inv ?N st1"
    using ai by (simp add: ack_inv_cong[OF a1 b1])
  from sender_recv_result[OF N ai1, of e]
  obtain st2 where r2: "sender_recv c e st1 = Some st2"
    and f2: "tx_cnt st2 = tx_cnt st1" "next_to_send st2 = next_to_send st1"
    and b2: "base st1 \<le> base st2" and ai2: "ack_inv ?N st2"
    by blast
  have t2: "tx_inv c st2"
    using t1 by (simp add: tx_inv_cong[OF f2])
  define I3 where "I3 = (\<lambda>s. tx_inv c s \<and> base s = base st2 \<and> acked s = acked st2)"
  have "case retransmit rnd c (now e) (base st2) st2 of Failed st' \<Rightarrow> I3 st' | Running st' \<Rightarrow> I3 st'"
  proof (rule retransmit_rule)
    show "I3 st2"
      using t2 by (simp add: I3_def)
    show "I3 (resend c (now e) s u)"
      if "I3 u" "s < next_to_send u" "s \<le> ?N" "tx_cnt u ! unat s < cfg_retries c" for s u
      using that by (simp add: I3_def tx_inv_resend resend_fields)
  qed
  then have "I3 (iter_state (retransmit rnd c (now e) (base st2) st2))"
    by (cases "retransmit rnd c (now e) (base st2) st2") simp_all
  then have t3: "tx_inv c (iter_state (retransmit rnd c (now e) (base st2) st2))"
    and b3: "base (iter_state (retransmit rnd c (now e) (base st2) st2)) = base st2"
    and a3: "acked (iter_state (retransmit rnd c (now e) (base st2) st2)) = acked st2"
    by (simp_all add: I3_def)
  have "sender_iter rnd c e st = Some (retransmit rnd c (now e) (base st2) st2)"
    by (simp add: sender_iter_def r1 r2)
  moreover have "ack_inv ?N (iter_state (retransmit rnd c (now e) (base st2) st2))"
    using ai2 by (simp add: ack_inv_cong[OF a3 b3])
  moreover have "base st \<le> base (iter_state (retransmit rnd c (now e) (base st2) st2))"
    using b2 by (simp add: b3 b1)
  ultimately show ?thesis
    using t3 by blast
qed

lemma tx_inv_init: "0 \<le> cfg_retries c \<Longrightarrow> tx_inv c (s_init c)"
proof -
  assume R: "0 \<le> cfg_retries c"
  have "replicate (unat (cfg_total_segs c) + 1) (0 :: int) ! k = 0"
    if "k \<le> unat (cfg_total_segs c)" for k
    using that by (intro nth_replicate) simp
  then show ?thesis
    unfolding tx_inv_def s_init_def using R by (simp del: replicate_Suc replicate.simps)
qed

lemma sender_run_result:
  assumes N: "cfg_total_segs c \<noteq> -1" and R: "1 \<le> cfg_retries c"
    and ai: "ack_inv (cfg_total_segs c) st" and ti: "tx_inv c st"
  shows "\<exists>r. sender_run rnd c st es = Some r \<and> ack_inv (cfg_total_segs c) (final_state r)
    \<and> tx_inv c (final_state r) \<and> base st \<le> base (final_state r)
    \<and> (\<forall>st'. r = AtEnd st' \<longrightarrow> \<not> base st' \<le> cfg_total_segs c)"
  using ai ti
proof (induction es arbitrary: st)
  case Nil
  then show ?case by simp
next
  case (Cons e es)
  show ?case
  proof (cases "base st \<le> cfg_total_segs c")
    case False
    then show ?thesis
      using Cons.prems by simp
  next
    case True
    from sender_iter_result[OF N R Cons.prems, of rnd e]
    obtain r where r: "sender_iter rnd c e st = Some r"
      and ai': "ack_inv (cfg_total_segs c) (iter_state r)" and ti': "tx_inv c (iter_state r)"
      and b: "base st \<le> base (iter_state r)"
      by blast
    show ?thesis
    proof (cases r)
      case (Failed st')
      then show ?thesis
        using True r ai' ti' b by simp
    next
      case (Running st')
      then have "sender_run rnd c st (e # es) = sender_run rnd c st' es"
        using True r by simp
      moreover have "ack_inv (cfg_total_segs c) st'" "tx_inv c st'"
        using ai' ti' Running by simp_all
      from Cons.IH[OF this] obtain r' where r': "sender_run rnd c st' es = Some r'"
        and i': "ack_inv (cfg_total_segs c) (final_state r')" "tx_inv c (final_state r')"
        and b': "base st' \<le> base (final_state r')"
        and e': "\<forall>st''. r' = AtEnd st'' \<longrightarrow> \<not> base st'' \<le> cfg_total_segs c"
        by blast
      have "base st \<le> base (final_state r')"
        using b b' Running by simp
      ultimately show ?thesis
        using r' i' e' by simp
    qed
  qed
qed

section \<open>Acknowledgments, duplicates and short datagrams\<close>

lemma sender_iter_base:
  assumes N: "cfg_total_segs c \<noteq> -1" and ai: "ack_inv (cfg_total_segs c) st"
  shows "\<exists>r. sender_iter rnd c e st = Some r \<and> ack_inv (cfg_total_segs c) (iter_state r)
    \<and> base st \<le> base (iter_state r)"
proof -
  let ?N = "cfg_total_segs c"
  define I1 where "I1 = (\<lambda>s :: sstate. base s = base st \<and> acked s = acked st)"
  have "\<exists>st1. send_new c e st = Some st1 \<and> I1 st1"
    by (rule send_new_rule[OF N]) (simp_all add: I1_def transmit_new_fields)
  then obtain st1 where r1: "send_new c e st = Some st1"
    and b1: "base st1 = base st" and a1: "acked st1 = acked st"
    by (auto simp add: I1_def)
  have ai1: "ack_inv ?N st1"
    using ai by (simp add: ack_inv_cong[OF a1 b1])
  from sender_recv_result[OF N ai1, of e]
  obtain st2 where r2: "sender_recv c e st1 = Some st2"
    and b2: "base st1 \<le> base st2" and ai2: "ack_inv ?N st2"
    by blast
  define I3 where "I3 = (\<lambda>s :: sstate. base s = base st2 \<and> acked s = acked st2)"
  have "case retransmit rnd c (now e) (base st2) st2 of Failed st' \<Rightarrow> I3 st' | Running st' \<Rightarrow> I3 st'"
    by (rule retransmit_rule) (simp_all add: I3_def resend_fields)
  then have "I3 (iter_state (retransmit rnd c (now e) (base st2) st2))"
    by (cases "retransmit rnd c (now e) (base st2) st2") simp_all
  then have b3: "base (iter_state (retransmit rnd c (now e) (base st2) st2)) = base st2"
    and a3: "acked (iter_state (retransmit rnd c (now e) (base st2) st2)) = acked st2"
    by (simp_all add: I3_def)
  have "sender_iter rnd c e st = Some (retransmit rnd c (now e) (base st2) st2)"
    by (simp add: sender_iter_def r1 r2)
  moreover have "ack_inv ?N (iter_state (retransmit rnd c (now e) (base st2) st2))"
    using ai2 by (simp add: ack_inv_cong[OF a3 b3])
  moreover have "base st \<le> base (iter_state (retransmit rnd c (now e) (base st2) st2))"
    using b2 by (simp add: b3 b1)
  ultimately show ?thesis
    by blast
qed

lemma sender_run_base:
  assumes N: "cfg_total_segs c \<noteq> -1" and ai: "ack_inv (cfg_total_segs c) st"
  shows "\<exists>r. sender_run rnd c st es = Some r \<and> ack_inv (cfg_total_segs c) (final_state r)
    \<and> base st \<le> base (final_state r)"
  using ai
proof (induction es arbitrary: st)
  case Nil
  then show ?case by simp
next
  case (Cons e es)
  show ?case
  proof (cases "base st \<le> cfg_total_segs c")
    case False
    then show ?thesis
      using Cons.prems by simp
  next
    case True
    from sender_iter_base[OF N Cons.prems, of rnd e]
    obtain r where r: "sender_iter rnd c e st = Some r"
      and ai': "ack_inv (cfg_total_segs c) (iter_state r)"
      and b: "base st \<le> base (iter_state r)"
      by blast
    show ?thesis
    proof (cases r)
      case (Failed st')
      then show ?thesis
        using True r ai' b by simp
    next
      case (Running st')
      then have "sender_run rnd c st (e # es) = sender_run rnd c st' es"
        using True r by simp
      moreover have "ack_inv (cfg_total_segs c) st'"
        using ai' Running by simp
      from Cons.IH[OF this] obtain r' where r': "sender_run rnd c st' es = Some r'"
        and i': "ack_inv (cfg_total_segs c) (final_state r')"
        and b': "base st' \<le> base (final_state r')"
        by blast
      have "base st \<le> base (final_state r')"
        using b b' Running by simp
      ultimately show ?thesis
        using r' i' by simp
    qed
  qed
qed

lemma demo_conf_segs: "cfg_total_segs demo_conf = 2"
  by (simp add: demo_conf_def mk_conf_def payload_max_of_def total_segs_of_def)



lemma length_be_bytes: "length (be_bytes w n) = w"
  by (induction w arbitrary: n) simp_all

lemma be_nat_snoc: "be_nat (bs @ [b]) = be_nat bs * 256 + unat b"
  by (simp add: be_nat_def)

lemma be_nat_be_bytes: "be_nat (be_bytes w n) = n mod 256 ^ w"
proof (induction w arbitrary: n)
  case 0
  then show ?case by (simp add: be_nat_def)
next
  case (Suc w)
  have "unat (of_nat n :: byte) = n mod 256"
    by (simp add: unat_of_nat)
  then have "be_nat (be_bytes (Suc w) n) = (n div 256 mod 256 ^ w) * 256 + n mod 256"
    by (simp add: be_nat_snoc Suc.IH)
  also have "\<dots> = n mod (256 * 256 ^ w)"
    by (simp add: mod_mult2_eq)
  finally show ?case
    by simp
qed

lemma field_middle:
  assumes "length xs = off" and "length ys = w"
  shows "field off w (xs @ ys @ zs) = ys"
  using assms by (simp add: field_def)

lemma ack_packet_fields:
  "field 1 4 (ack_packet cum m) = be_bytes 4 0"
  "field 5 2 (ack_packet cum m) = be_bytes 2 ACKLEN"
  "field HDR 4 (ack_packet cum m) = be_bytes 4 (unat cum)"
  "field (HDR + 4) 8 (ack_packet cum m) = be_bytes 8 (unat m)"
proof -
  have "ack_packet cum m = [PKT_ACK] @ be_bytes 4 0 @ (be_bytes 2 ACKLEN @ be_bytes 4 (unat cum) @ be_bytes 8 (unat m))"
    by (simp add: ack_packet_def)
  then show "field 1 4 (ack_packet cum m) = be_bytes 4 0"
    by (simp only: field_middle[of "[PKT_ACK]" 1 "be_bytes 4 0" 4] length_be_bytes list.size)
  have "ack_packet cum m = (PKT_ACK # be_bytes 4 0) @ be_bytes 2 ACKLEN @ (be_bytes 4 (unat cum) @ be_bytes 8 (unat m))"
    by (simp add: ack_packet_def)
  moreover have "length (PKT_ACK # be_bytes 4 0) = 5"
    by (simp add: length_be_bytes)
  ultimately show "field 5 2 (ack_packet cum m) = be_bytes 2 ACKLEN"
    by (simp only: field_middle length_be_bytes)
  have "ack_packet cum m = (PKT_ACK # be_bytes 4 0 @ be_bytes 2 ACKLEN) @ be_bytes 4 (unat cum) @ be_bytes 8 (unat m)"
    by (simp add: ack_packet_def)
  moreover have "length (PKT_ACK # be_bytes 4 0 @ be_bytes 2 ACKLEN) = HDR"
    by (simp add: length_be_bytes HDR_def)
  ultimately show "field HDR 4 (ack_packet cum m) = be_bytes 4 (unat cum)"
    by (simp only: field_middle length_be_bytes)
  have "ack_packet cum m = (PKT_ACK # be_bytes 4 0 @ be_bytes 2 ACKLEN @ be_bytes 4 (unat cum)) @ be_bytes 8 (unat m) @ []"
    by (simp add: ack_packet_def)
  moreover have "length (PKT_ACK # be_bytes 4 0 @ be_bytes 2 ACKLEN @ be_bytes 4 (unat cum)) = HDR + 4"
    by (simp add: length_be_bytes HDR_def)
  ultimately show "field (HDR + 4) 8 (ack_packet cum m) = be_bytes 8 (unat m)"
    by (simp only: field_middle length_be_bytes)
qed

lemma ack_packet_decode:
  "length (ack_packet cum m) = HDR + ACKLEN"
  "hdr_type (ack_packet cum m) = PKT_ACK"
  "hdr_seq (ack_packet cum m) = 0"
  "unat (hdr_len (ack_packet cum m)) = ACKLEN"
  "ack_cum_field (ack_packet cum m) = cum"
  "ack_mask_field (ack_packet cum m) = m"
proof -
  show "length (ack_packet cum m) = HDR + ACKLEN"
    by (simp add: ack_packet_def length_be_bytes HDR_def ACKLEN_def)
  show "hdr_type (ack_packet cum m) = PKT_ACK"
    by (simp add: ack_packet_def hdr_type_def)
  show "hdr_seq (ack_packet cum m) = 0"
    by (simp only: hdr_seq_def ack_packet_fields be_nat_be_bytes) simp
  show "unat (hdr_len (ack_packet cum m)) = ACKLEN"
    by (simp only: hdr_len_def ack_packet_fields be_nat_be_bytes) (simp add: ACKLEN_def)
  have "unat cum < 2 ^ 32"
    by (rule unat_u32_bound)
  then have "unat cum mod 256 ^ 4 = unat cum"
    by simp
  then show "ack_cum_field (ack_packet cum m) = cum"
    by (simp only: ack_cum_field_def ack_packet_fields be_nat_be_bytes) simp
  have "unat m < 2 ^ 64"
    using unsigned_less[of m, where 'a = nat] by simp
  then have "unat m mod 256 ^ 8 = unat m"
    by simp
  then show "ack_mask_field (ack_packet cum m) = m"
    by (simp only: ack_mask_field_def ack_packet_fields be_nat_be_bytes) simp
qed

lemma sender_recv_ack:
  assumes d: "rcvd e = Some d" and len: "HDR + ACKLEN \<le> length d"
    and ty: "hdr_type d = PKT_ACK" and hl: "unat (hdr_len d) = ACKLEN"
  shows "sender_recv c e st
    = process_ack (cfg_total_segs c) (ack_cum_field d) (ack_mask_field d) st"
proof -
  obtain n b where nb: "recv_into 128 (abuf0 e) d = (n, b)"
    by (cases "recv_into 128 (abuf0 e) d")
  have b: "b = snd (recv_into 128 (abuf0 e) d)"
    by (simp add: nb)
  have n: "n = min (length d) 128"
    using recv_into_n[of 128 "abuf0 e" d] nb by simp
  then have hn: "HDR \<le> n"
    using len by (simp add: HDR_def ACKLEN_def)
  have l: "19 \<le> length d"
    using len by (simp add: HDR_def ACKLEN_def)
  have "d \<noteq> []"
    using l by auto
  then have "b ! 0 = d ! 0"
    using l by (simp add: b recv_into_buf nth_append)
  then have 1: "hdr_type b = PKT_ACK"
    using ty by (simp add: hdr_type_def)
  have 2: "hdr_len b = hdr_len d"
    unfolding b hdr_len_def using l by (subst field_recv) simp_all
  have 3: "ack_cum_field b = ack_cum_field d"
    unfolding b ack_cum_field_def using l by (subst field_recv) (simp_all add: HDR_def)
  have 4: "ack_mask_field b = ack_mask_field d"
    unfolding b ack_mask_field_def using l by (subst field_recv) (simp_all add: HDR_def)
  show ?thesis
    using hn 1 hl by (simp add: sender_recv_def d nb 2 3 4)
qed

lemma sender_recv_ack_result:
  assumes N: "cfg_total_segs c \<noteq> -1" and inv: "ack_inv (cfg_total_segs c) st"
    and d: "rcvd e = Some d" and len: "HDR + ACKLEN \<le> length d"
    and ty: "hdr_type d = PKT_ACK" and hl: "unat (hdr_len d) = ACKLEN"
  shows "\<exists>st'. sender_recv c e st = Some st'
    \<and> (\<forall>k. 1 \<le> k \<and> k \<le> unat (cfg_total_segs c) \<longrightarrow>
          (acked st' ! k \<longleftrightarrow> acked st ! k
             \<or> (unat (base st) \<le> k \<and> k \<le> unat (ack_cum_field d))
             \<or> (\<exists>i<64. bit (ack_mask_field d) i \<and> k = unat (ack_cum_field d) + 1 + i)))
    \<and> base st \<le> base st' \<and> ack_inv (cfg_total_segs c) st'"
proof -
  obtain st' where H: "process_ack (cfg_total_segs c) (ack_cum_field d) (ack_mask_field d) st = Some st'
      \<and> st' = st\<lparr>base := base st', acked := acked st', in_flight := in_flight st'\<rparr>
      \<and> (\<forall>k. 1 \<le> k \<and> k \<le> unat (cfg_total_segs c) \<longrightarrow>
          (acked st' ! k \<longleftrightarrow> acked st ! k
             \<or> (unat (base st) \<le> k \<and> k \<le> unat (ack_cum_field d))
             \<or> (\<exists>i<64. bit (ack_mask_field d) i \<and> k = unat (ack_cum_field d) + 1 + i)))
      \<and> base st \<le> base st' \<and> ack_inv (cfg_total_segs c) st'"
    using process_ack_result[OF N inv, of "ack_cum_field d" "ack_mask_field d"]
    by (elim exE) (rule that)
  note H1 = H[THEN conjunct1] and H3 = H[THEN conjunct2, THEN conjunct2]
  have "sender_recv c e st = Some st'"
    using H1 by (simp only: sender_recv_ack[OF d len ty hl])
  then show ?thesis
    using H3 by (intro exI[of _ st'] conjI) simp_all
qed

lemma sender_iter_ack:
  assumes N: "cfg_total_segs c \<noteq> -1" and ai: "ack_inv (cfg_total_segs c) st"
    and d: "rcvd e = Some d" and len: "HDR + ACKLEN \<le> length d"
    and ty: "hdr_type d = PKT_ACK" and hl: "unat (hdr_len d) = ACKLEN"
  shows "\<exists>r. sender_iter rnd c e st = Some r
    \<and> (\<forall>k. 1 \<le> k \<and> k \<le> unat (cfg_total_segs c) \<longrightarrow>
          (acked (iter_state r) ! k \<longleftrightarrow> acked st ! k
             \<or> (unat (base st) \<le> k \<and> k \<le> unat (ack_cum_field d))
             \<or> (\<exists>i<64. bit (ack_mask_field d) i \<and> k = unat (ack_cum_field d) + 1 + i)))
    \<and> base st \<le> base (iter_state r) \<and> ack_inv (cfg_total_segs c) (iter_state r)"
proof -
  let ?N = "cfg_total_segs c"
  define I1 where "I1 = (\<lambda>s :: sstate. base s = base st \<and> acked s = acked st)"
  have "\<exists>st1. send_new c e st = Some st1 \<and> I1 st1"
    by (rule send_new_rule[OF N]) (simp_all add: I1_def transmit_new_fields)
  then obtain st1 where r1: "send_new c e st = Some st1"
    and b1: "base st1 = base st" and a1: "acked st1 = acked st"
    by (auto simp add: I1_def)
  have ai1: "ack_inv ?N st1"
    using ai by (simp add: ack_inv_cong[OF a1 b1])
  obtain st2 where H: "sender_recv c e st1 = Some st2
    \<and> (\<forall>k. 1 \<le> k \<and> k \<le> unat (cfg_total_segs c) \<longrightarrow>
          (acked st2 ! k \<longleftrightarrow> acked st1 ! k
             \<or> (unat (base st1) \<le> k \<and> k \<le> unat (ack_cum_field d))
             \<or> (\<exists>i<64. bit (ack_mask_field d) i \<and> k = unat (ack_cum_field d) + 1 + i)))
    \<and> base st1 \<le> base st2 \<and> ack_inv (cfg_total_segs c) st2"
    using sender_recv_ack_result[OF N ai1 d len ty hl] by (elim exE) (rule that)
  note r2 = H[THEN conjunct1] and ch = H[THEN conjunct2, THEN conjunct1]
    and b2 = H[THEN conjunct2, THEN conjunct2, THEN conjunct1]
    and ai2 = H[THEN conjunct2, THEN conjunct2, THEN conjunct2]
  define I3 where "I3 = (\<lambda>s :: sstate. base s = base st2 \<and> acked s = acked st2)"
  let ?r = "retransmit rnd c (now e) (base st2) st2"
  have "case ?r of Failed st' \<Rightarrow> I3 st' | Running st' \<Rightarrow> I3 st'"
    by (rule retransmit_rule) (simp_all add: I3_def resend_fields)
  then have "I3 (iter_state ?r)"
    by (cases ?r) simp_all
  then have b3: "base (iter_state ?r) = base st2" and a3: "acked (iter_state ?r) = acked st2"
    by (simp_all add: I3_def)
  have "sender_iter rnd c e st = Some ?r"
    by (simp add: sender_iter_def r1 r2)
  moreover have "ack_inv ?N (iter_state ?r)"
    using ai2 by (simp add: ack_inv_cong[OF a3 b3])
  moreover have "base st \<le> base (iter_state ?r)"
    using b2 by (simp add: b3 b1)
  moreover have "\<forall>k. 1 \<le> k \<and> k \<le> unat (cfg_total_segs c) \<longrightarrow>
          (acked (iter_state ?r) ! k \<longleftrightarrow> acked st ! k
             \<or> (unat (base st) \<le> k \<and> k \<le> unat (ack_cum_field d))
             \<or> (\<exists>i<64. bit (ack_mask_field d) i \<and> k = unat (ack_cum_field d) + 1 + i))"
    using ch by (simp only: a3 a1 b1)
  ultimately show ?thesis
    by (intro exI[of _ ?r] conjI)
qed

lemma process_ack_bits:
  assumes N: "N \<noteq> -1" and len: "length (acked st) = unat N + 1"
    and r: "process_ack N cum m st = Some st'"
  shows "\<forall>k \<le> unat N. acked st' ! k \<longleftrightarrow> acked st ! k
      \<or> (unat (base st) \<le> k \<and> k \<le> unat cum)
      \<or> (\<exists>i<64. bit m i \<and> cum + 1 + of_nat i \<le> N \<and> unat (cum + 1 + of_nat i) = k)"
proof -
  obtain st1 c1 st3 c2 where H: "process_ack N cum m st = Some (st3\<lparr>base := c2\<rparr>)
    \<and> st1 = st\<lparr>acked := acked st1, in_flight := in_flight st1\<rparr>
    \<and> length (acked st1) = length (acked st)
    \<and> (\<forall>k<length (acked st). acked st1 ! k \<longleftrightarrow>
          acked st ! k \<or> (unat (base st) \<le> k \<and> k \<le> unat cum \<and> k \<le> unat N))
    \<and> base st \<le> c1 \<and> (c1 \<le> N \<longrightarrow> \<not> acked st1 ! unat c1)
    \<and> (\<forall>k. unat (base st) \<le> k \<and> k < unat c1 \<longrightarrow> acked st1 ! k)
    \<and> (base st \<le> N + 1 \<longrightarrow> c1 \<le> N + 1)
    \<and> st3 = st\<lparr>base := c1, acked := acked st3, in_flight := in_flight st3\<rparr>
    \<and> length (acked st3) = length (acked st)
    \<and> (\<forall>k<length (acked st). acked st3 ! k \<longleftrightarrow> acked st1 ! k
          \<or> (\<exists>i<64. bit m i \<and> cum + 1 + of_nat i \<le> N \<and> unat (cum + 1 + of_nat i) = k))
    \<and> c1 \<le> c2 \<and> (c2 \<le> N \<longrightarrow> \<not> acked st3 ! unat c2)
    \<and> (\<forall>k. unat c1 \<le> k \<and> k < unat c2 \<longrightarrow> acked st3 ! k)
    \<and> (c1 \<le> N + 1 \<longrightarrow> c2 \<le> N + 1)"
    using process_ack_steps[OF N, of cum m st] by (elim exE) (rule that)
  from H have e: "process_ack N cum m st = Some (st3\<lparr>base := c2\<rparr>)"
    and a1: "\<forall>k<length (acked st). acked st1 ! k \<longleftrightarrow>
          acked st ! k \<or> (unat (base st) \<le> k \<and> k \<le> unat cum \<and> k \<le> unat N)"
    and a3: "\<forall>k<length (acked st). acked st3 ! k \<longleftrightarrow> acked st1 ! k
          \<or> (\<exists>i<64. bit m i \<and> cum + 1 + of_nat i \<le> N \<and> unat (cum + 1 + of_nat i) = k)"
    by simp_all
  have st': "acked st' = acked st3"
    using e r by auto
  show ?thesis
  proof (intro allI impI)
    fix k assume k: "k \<le> unat N"
    then have kl: "k < length (acked st)"
      using len by simp
    show "acked st' ! k \<longleftrightarrow> acked st ! k
      \<or> (unat (base st) \<le> k \<and> k \<le> unat cum)
      \<or> (\<exists>i<64. bit m i \<and> cum + 1 + of_nat i \<le> N \<and> unat (cum + 1 + of_nat i) = k)"
      using a1[rule_format, OF kl] a3[rule_format, OF kl] k by (simp add: st')
  qed
qed

text \<open>
  Claim C3. Take a state of the sender whose \<^verbatim>\<open>base\<close> is the first segment not
  acknowledged (every state of the bulk loop is one, by the last two parts), with
  \<^verbatim>\<open>total_segs + 1\<close> representable in 32 bits as the END packet requires. When a
  datagram is received that holds an ACK header and the 12-byte record, step 2 of the
  iteration returns, and afterwards a segment \<^verbatim>\<open>k\<close> from 1 to \<^verbatim>\<open>N\<close> is acknowledged
  exactly when it was before, or lies between \<^verbatim>\<open>base\<close> and the \<^verbatim>\<open>cum\<close> of the record, or is
  \<^verbatim>\<open>cum + 1 + i\<close> for a bit \<^verbatim>\<open>i\<close> set in the mask of the record; \<^verbatim>\<open>base\<close> is again the
  least segment not acknowledged (\<^verbatim>\<open>N + 1\<close> when there is none) and has not decreased;
  the same holds after the whole iteration. \<^verbatim>\<open>cum\<close> and the mask are those that the
  receiver's \<^verbatim>\<open>send_ack_sack\<close> put into the datagram. The same holds of the processing
  of a record \<^verbatim>\<open>(cum, mask)\<close> by itself, which is what step 2 does with the record of
  the datagram; of all the \<^verbatim>\<open>N + 1\<close> entries of \<^verbatim>\<open>acked\<close>, entry 0 included (it belongs
  to no segment), those set are the ones between \<^verbatim>\<open>base\<close> and \<^verbatim>\<open>cum\<close> and the ones at the
  32-bit value \<^verbatim>\<open>s = cum + 1 + i\<close> that the code computes for a bit \<^verbatim>\<open>i\<close> of the mask,
  when \<^verbatim>\<open>s \<le> N\<close>. An iteration with any input, and any run of the bulk loop, does not
  decrease \<^verbatim>\<open>base\<close> and keeps it the least segment not acknowledged, as it is in the
  initial state.
\<close>

theorem ack_marks_segments_and_base:
  assumes N: "cfg_total_segs c \<noteq> -1" and inv: "ack_inv (cfg_total_segs c) st"
  shows "(rcvd e = Some d \<and> HDR + ACKLEN \<le> length d \<and> hdr_type d = PKT_ACK
            \<and> unat (hdr_len d) = ACKLEN
          \<longrightarrow> (\<exists>st'. sender_recv c e st = Some st'
                \<and> (\<forall>k. 1 \<le> k \<and> k \<le> unat (cfg_total_segs c) \<longrightarrow>
                      (acked st' ! k \<longleftrightarrow> acked st ! k
                         \<or> (unat (base st) \<le> k \<and> k \<le> unat (ack_cum_field d))
                         \<or> (\<exists>i<64. bit (ack_mask_field d) i
                               \<and> k = unat (ack_cum_field d) + 1 + i)))
                \<and> base_is_least (acked st') (unat (cfg_total_segs c)) (unat (base st'))
                \<and> base st \<le> base st')
            \<and> (\<exists>r. sender_iter rnd c e st = Some r
                \<and> (\<forall>k. 1 \<le> k \<and> k \<le> unat (cfg_total_segs c) \<longrightarrow>
                      (acked (iter_state r) ! k \<longleftrightarrow> acked st ! k
                         \<or> (unat (base st) \<le> k \<and> k \<le> unat (ack_cum_field d))
                         \<or> (\<exists>i<64. bit (ack_mask_field d) i
                               \<and> k = unat (ack_cum_field d) + 1 + i)))
                \<and> base_is_least (acked (iter_state r)) (unat (cfg_total_segs c))
                     (unat (base (iter_state r)))
                \<and> base st \<le> base (iter_state r))
            \<and> sender_recv c e st
                = process_ack (cfg_total_segs c) (ack_cum_field d) (ack_mask_field d) st)
       \<and> (length (ack_packet cum m) = HDR + ACKLEN \<and> hdr_type (ack_packet cum m) = PKT_ACK
            \<and> unat (hdr_len (ack_packet cum m)) = ACKLEN
            \<and> ack_cum_field (ack_packet cum m) = cum \<and> ack_mask_field (ack_packet cum m) = m)
       \<and> (\<exists>st'. process_ack (cfg_total_segs c) cum m st = Some st'
          \<and> (\<forall>k. 1 \<le> k \<and> k \<le> unat (cfg_total_segs c) \<longrightarrow>
                (acked st' ! k \<longleftrightarrow> acked st ! k \<or> (unat (base st) \<le> k \<and> k \<le> unat cum)
                   \<or> (\<exists>i<64. bit m i \<and> k = unat cum + 1 + i)))
          \<and> base_is_least (acked st') (unat (cfg_total_segs c)) (unat (base st'))
          \<and> base st \<le> base st'
          \<and> (\<forall>k \<le> unat (cfg_total_segs c). acked st' ! k \<longleftrightarrow> acked st ! k
                \<or> (unat (base st) \<le> k \<and> k \<le> unat cum)
                \<or> (\<exists>i<64. bit m i \<and> cum + 1 + of_nat i \<le> cfg_total_segs c
                      \<and> unat (cum + 1 + of_nat i) = k)))
       \<and> (\<exists>r. sender_iter rnd c e st = Some r
          \<and> base_is_least (acked (iter_state r)) (unat (cfg_total_segs c)) (unat (base (iter_state r)))
          \<and> base st \<le> base (iter_state r))
       \<and> (\<exists>r. sender_run rnd c st es = Some r
          \<and> base_is_least (acked (final_state r)) (unat (cfg_total_segs c))
               (unat (base (final_state r)))
          \<and> length (acked (final_state r)) = unat (cfg_total_segs c) + 1
          \<and> base st \<le> base (final_state r))
       \<and> ack_inv (cfg_total_segs c) (s_init c)"
proof -
  have 0: "(\<exists>st'. sender_recv c e st = Some st'
                \<and> (\<forall>k. 1 \<le> k \<and> k \<le> unat (cfg_total_segs c) \<longrightarrow>
                      (acked st' ! k \<longleftrightarrow> acked st ! k
                         \<or> (unat (base st) \<le> k \<and> k \<le> unat (ack_cum_field d))
                         \<or> (\<exists>i<64. bit (ack_mask_field d) i
                               \<and> k = unat (ack_cum_field d) + 1 + i)))
                \<and> base_is_least (acked st') (unat (cfg_total_segs c)) (unat (base st'))
                \<and> base st \<le> base st')
            \<and> (\<exists>r. sender_iter rnd c e st = Some r
                \<and> (\<forall>k. 1 \<le> k \<and> k \<le> unat (cfg_total_segs c) \<longrightarrow>
                      (acked (iter_state r) ! k \<longleftrightarrow> acked st ! k
                         \<or> (unat (base st) \<le> k \<and> k \<le> unat (ack_cum_field d))
                         \<or> (\<exists>i<64. bit (ack_mask_field d) i
                               \<and> k = unat (ack_cum_field d) + 1 + i)))
                \<and> base_is_least (acked (iter_state r)) (unat (cfg_total_segs c))
                     (unat (base (iter_state r)))
                \<and> base st \<le> base (iter_state r))
            \<and> sender_recv c e st
                = process_ack (cfg_total_segs c) (ack_cum_field d) (ack_mask_field d) st"
    if wf: "rcvd e = Some d \<and> HDR + ACKLEN \<le> length d \<and> hdr_type d = PKT_ACK
            \<and> unat (hdr_len d) = ACKLEN"
  proof -
    have d: "rcvd e = Some d" and len: "HDR + ACKLEN \<le> length d"
      and ty: "hdr_type d = PKT_ACK" and hl: "unat (hdr_len d) = ACKLEN"
      using wf by simp_all
    obtain st' where H: "sender_recv c e st = Some st'
      \<and> (\<forall>k. 1 \<le> k \<and> k \<le> unat (cfg_total_segs c) \<longrightarrow>
          (acked st' ! k \<longleftrightarrow> acked st ! k
             \<or> (unat (base st) \<le> k \<and> k \<le> unat (ack_cum_field d))
             \<or> (\<exists>i<64. bit (ack_mask_field d) i \<and> k = unat (ack_cum_field d) + 1 + i)))
      \<and> base st \<le> base st' \<and> ack_inv (cfg_total_segs c) st'"
      using sender_recv_ack_result[OF N inv d len ty hl] by (elim exE) (rule that)
    have a: "base_is_least (acked st') (unat (cfg_total_segs c)) (unat (base st'))"
      using H[THEN conjunct2, THEN conjunct2, THEN conjunct2] by (simp add: ack_inv_def)
    have A: "\<exists>st'. sender_recv c e st = Some st'
                \<and> (\<forall>k. 1 \<le> k \<and> k \<le> unat (cfg_total_segs c) \<longrightarrow>
                      (acked st' ! k \<longleftrightarrow> acked st ! k
                         \<or> (unat (base st) \<le> k \<and> k \<le> unat (ack_cum_field d))
                         \<or> (\<exists>i<64. bit (ack_mask_field d) i
                               \<and> k = unat (ack_cum_field d) + 1 + i)))
                \<and> base_is_least (acked st') (unat (cfg_total_segs c)) (unat (base st'))
                \<and> base st \<le> base st'"
      using H[THEN conjunct1] H[THEN conjunct2, THEN conjunct1] a
        H[THEN conjunct2, THEN conjunct2, THEN conjunct1]
      by (intro exI[of _ st'] conjI)
    obtain r where G: "sender_iter rnd c e st = Some r
      \<and> (\<forall>k. 1 \<le> k \<and> k \<le> unat (cfg_total_segs c) \<longrightarrow>
          (acked (iter_state r) ! k \<longleftrightarrow> acked st ! k
             \<or> (unat (base st) \<le> k \<and> k \<le> unat (ack_cum_field d))
             \<or> (\<exists>i<64. bit (ack_mask_field d) i \<and> k = unat (ack_cum_field d) + 1 + i)))
      \<and> base st \<le> base (iter_state r) \<and> ack_inv (cfg_total_segs c) (iter_state r)"
      using sender_iter_ack[OF N inv d len ty hl, of rnd] by (elim exE) (rule that)
    have b: "base_is_least (acked (iter_state r)) (unat (cfg_total_segs c))
        (unat (base (iter_state r)))"
      using G[THEN conjunct2, THEN conjunct2, THEN conjunct2] by (simp add: ack_inv_def)
    have B: "\<exists>r. sender_iter rnd c e st = Some r
                \<and> (\<forall>k. 1 \<le> k \<and> k \<le> unat (cfg_total_segs c) \<longrightarrow>
                      (acked (iter_state r) ! k \<longleftrightarrow> acked st ! k
                         \<or> (unat (base st) \<le> k \<and> k \<le> unat (ack_cum_field d))
                         \<or> (\<exists>i<64. bit (ack_mask_field d) i
                               \<and> k = unat (ack_cum_field d) + 1 + i)))
                \<and> base_is_least (acked (iter_state r)) (unat (cfg_total_segs c))
                     (unat (base (iter_state r)))
                \<and> base st \<le> base (iter_state r)"
      using G[THEN conjunct1] G[THEN conjunct2, THEN conjunct1] b
        G[THEN conjunct2, THEN conjunct2, THEN conjunct1]
      by (intro exI[of _ r] conjI)
    show ?thesis
      by (rule conjI[OF A conjI[OF B sender_recv_ack[OF d len ty hl]]])
  qed
  have dec: "length (ack_packet cum m) = HDR + ACKLEN \<and> hdr_type (ack_packet cum m) = PKT_ACK
            \<and> unat (hdr_len (ack_packet cum m)) = ACKLEN
            \<and> ack_cum_field (ack_packet cum m) = cum \<and> ack_mask_field (ack_packet cum m) = m"
    by (simp add: ack_packet_decode)
  obtain st' where H: "process_ack (cfg_total_segs c) cum m st = Some st'
      \<and> st' = st\<lparr>base := base st', acked := acked st', in_flight := in_flight st'\<rparr>
      \<and> (\<forall>k. 1 \<le> k \<and> k \<le> unat (cfg_total_segs c) \<longrightarrow>
          (acked st' ! k \<longleftrightarrow> acked st ! k \<or> (unat (base st) \<le> k \<and> k \<le> unat cum)
             \<or> (\<exists>i<64. bit m i \<and> k = unat cum + 1 + i)))
      \<and> base st \<le> base st' \<and> ack_inv (cfg_total_segs c) st'"
    using process_ack_result[OF N inv, of cum m] by (elim exE) (rule that)
  have lenA: "length (acked st) = unat (cfg_total_segs c) + 1"
    using inv by (simp add: ack_inv_def)
  have bl: "base_is_least (acked st') (unat (cfg_total_segs c)) (unat (base st'))"
    using H[THEN conjunct2, THEN conjunct2, THEN conjunct2, THEN conjunct2]
    by (simp add: ack_inv_def)
  have 1: "\<exists>st'. process_ack (cfg_total_segs c) cum m st = Some st'
          \<and> (\<forall>k. 1 \<le> k \<and> k \<le> unat (cfg_total_segs c) \<longrightarrow>
                (acked st' ! k \<longleftrightarrow> acked st ! k \<or> (unat (base st) \<le> k \<and> k \<le> unat cum)
                   \<or> (\<exists>i<64. bit m i \<and> k = unat cum + 1 + i)))
          \<and> base_is_least (acked st') (unat (cfg_total_segs c)) (unat (base st'))
          \<and> base st \<le> base st'
          \<and> (\<forall>k \<le> unat (cfg_total_segs c). acked st' ! k \<longleftrightarrow> acked st ! k
                \<or> (unat (base st) \<le> k \<and> k \<le> unat cum)
                \<or> (\<exists>i<64. bit m i \<and> cum + 1 + of_nat i \<le> cfg_total_segs c
                      \<and> unat (cum + 1 + of_nat i) = k))"
    using H[THEN conjunct1]
      H[THEN conjunct2, THEN conjunct2, THEN conjunct1] bl
      H[THEN conjunct2, THEN conjunct2, THEN conjunct2, THEN conjunct1]
      process_ack_bits[OF N lenA H[THEN conjunct1]]
    by (intro exI[of _ st'] conjI)
  have 2: "\<exists>r. sender_iter rnd c e st = Some r
          \<and> base_is_least (acked (iter_state r)) (unat (cfg_total_segs c)) (unat (base (iter_state r)))
          \<and> base st \<le> base (iter_state r)"
    using sender_iter_base[OF N inv, of rnd e] by (auto simp add: ack_inv_def)
  have 3: "\<exists>r. sender_run rnd c st es = Some r
          \<and> base_is_least (acked (final_state r)) (unat (cfg_total_segs c))
               (unat (base (final_state r)))
          \<and> length (acked (final_state r)) = unat (cfg_total_segs c) + 1
          \<and> base st \<le> base (final_state r)"
    using sender_run_base[OF N inv, of rnd es] by (auto simp add: ack_inv_def)
  show ?thesis
    by (rule conjI[OF impI[OF 0] conjI[OF dec conjI[OF 1 conjI[OF 2 conjI[OF 3 ack_inv_init]]]]])
qed

lemma ex_conf_eval:
  "ex_conf w r = \<lparr>cfg_total_bytes = 1082, cfg_payload_max = 541, cfg_total_segs = 2,
     cfg_win = clamp_win w, cfg_retries = r, cfg_rto_ms = 400\<rparr>"
  by (simp add: ex_conf_def mk_conf_def payload_max_of_def total_segs_of_def)

lemma ex_conf_segs: "cfg_total_segs (ex_conf w r) = 2"
  by (simp add: ex_conf_eval)

theorem ack_marks_segments_and_base_witness:
  "cfg_total_segs (ex_conf 2 50) \<noteq> -1
   \<and> ack_inv (cfg_total_segs (ex_conf 2 50)) (s_init (ex_conf 2 50))
   \<and> rcvd (demo_env\<lparr>rcvd := Some (ack_packet 1 1)\<rparr>) = Some (ack_packet 1 1)
   \<and> HDR + ACKLEN \<le> length (ack_packet 1 1) \<and> hdr_type (ack_packet 1 1) = PKT_ACK
   \<and> unat (hdr_len (ack_packet 1 1)) = ACKLEN
   \<and> (\<exists>st'. sender_recv (ex_conf 2 50) (demo_env\<lparr>rcvd := Some (ack_packet 1 1)\<rparr>)
               (s_init (ex_conf 2 50)) = Some st'
         \<and> acked st' ! 1 \<and> acked st' ! 2 \<and> unat (base st') = 3)
   \<and> (\<exists>r. sender_iter no_rounding (ex_conf 2 50) (demo_env\<lparr>rcvd := Some (ack_packet 1 1)\<rparr>)
               (s_init (ex_conf 2 50)) = Some r
         \<and> acked (iter_state r) ! 1 \<and> acked (iter_state r) ! 2
         \<and> unat (base (iter_state r)) = 3)"
proof -
  let ?c = "ex_conf 2 50" and ?e = "demo_env\<lparr>rcvd := Some (ack_packet 1 1)\<rparr>"
  let ?d = "ack_packet 1 1"
  have N: "cfg_total_segs ?c \<noteq> -1"
    by (simp add: ex_conf_segs)
  have inv: "ack_inv (cfg_total_segs ?c) (s_init ?c)"
    by (rule ack_inv_init)
  note t = ack_marks_segments_and_base[OF N inv, of ?e ?d no_rounding 1 1 "[]"]
  note dec = t[THEN conjunct2, THEN conjunct1]
  have wf: "rcvd ?e = Some ?d \<and> HDR + ACKLEN \<le> length ?d \<and> hdr_type ?d = PKT_ACK
      \<and> unat (hdr_len ?d) = ACKLEN"
    using dec by simp
  have cum: "unat (ack_cum_field ?d) = 1" and m: "ack_mask_field ?d = 1"
    using dec by simp_all
  have b0: "unat (base (s_init ?c)) = 1" and n: "unat (cfg_total_segs ?c) = 2"
    by (simp_all add: s_init_def ex_conf_segs)
  have fin: "ak ! 1 \<and> ak ! 2 \<and> b = 3"
    if ch: "\<forall>k. 1 \<le> k \<and> k \<le> unat (cfg_total_segs ?c) \<longrightarrow>
          (ak ! k \<longleftrightarrow> acked (s_init ?c) ! k
             \<or> (unat (base (s_init ?c)) \<le> k \<and> k \<le> unat (ack_cum_field ?d))
             \<or> (\<exists>i<64. bit (ack_mask_field ?d) i \<and> k = unat (ack_cum_field ?d) + 1 + i))"
      and bl: "base_is_least ak (unat (cfg_total_segs ?c)) b" for ak b
  proof -
    have a1: "ak ! 1"
      using ch[rule_format, of 1] by (simp add: n b0 cum)
    have "\<exists>i<64. bit (1 :: u64) i \<and> (2 :: nat) = 1 + 1 + i"
      by (intro exI[of _ 0]) simp
    then have a2: "ak ! 2"
      using ch[rule_format, of 2] by (simp only: n b0 cum m) simp
    have "1 \<le> b" "b \<le> 3" "b \<le> 2 \<longrightarrow> \<not> ak ! b"
      using bl by (simp_all add: base_is_least_def n)
    moreover have "b = 1 \<or> b = 2 \<or> b = 3" if "1 \<le> b" "b \<le> 3"
      using that by arith
    ultimately have "b = 3"
      using a1 a2 by auto
    then show ?thesis
      using a1 a2 by simp
  qed
  note A = t[THEN conjunct1, THEN mp, OF wf]
  obtain st' where H: "sender_recv ?c ?e (s_init ?c) = Some st'
      \<and> (\<forall>k. 1 \<le> k \<and> k \<le> unat (cfg_total_segs ?c) \<longrightarrow>
          (acked st' ! k \<longleftrightarrow> acked (s_init ?c) ! k
             \<or> (unat (base (s_init ?c)) \<le> k \<and> k \<le> unat (ack_cum_field ?d))
             \<or> (\<exists>i<64. bit (ack_mask_field ?d) i \<and> k = unat (ack_cum_field ?d) + 1 + i)))
      \<and> base_is_least (acked st') (unat (cfg_total_segs ?c)) (unat (base st'))
      \<and> base (s_init ?c) \<le> base st'"
    using A[THEN conjunct1] by (elim exE) (rule that)
  have 1: "\<exists>st'. sender_recv ?c ?e (s_init ?c) = Some st'
         \<and> acked st' ! 1 \<and> acked st' ! 2 \<and> unat (base st') = 3"
    using H[THEN conjunct1]
      fin[OF H[THEN conjunct2, THEN conjunct1] H[THEN conjunct2, THEN conjunct2, THEN conjunct1]]
    by (intro exI[of _ st']) simp
  note B = t[THEN conjunct1, THEN mp, OF wf, THEN conjunct2, THEN conjunct1]
  obtain r where G: "sender_iter no_rounding ?c ?e (s_init ?c) = Some r
      \<and> (\<forall>k. 1 \<le> k \<and> k \<le> unat (cfg_total_segs ?c) \<longrightarrow>
          (acked (iter_state r) ! k \<longleftrightarrow> acked (s_init ?c) ! k
             \<or> (unat (base (s_init ?c)) \<le> k \<and> k \<le> unat (ack_cum_field ?d))
             \<or> (\<exists>i<64. bit (ack_mask_field ?d) i \<and> k = unat (ack_cum_field ?d) + 1 + i)))
      \<and> base_is_least (acked (iter_state r)) (unat (cfg_total_segs ?c))
           (unat (base (iter_state r)))
      \<and> base (s_init ?c) \<le> base (iter_state r)"
    using B by (elim exE) (rule that)
  have 2: "\<exists>r. sender_iter no_rounding ?c ?e (s_init ?c) = Some r
         \<and> acked (iter_state r) ! 1 \<and> acked (iter_state r) ! 2
         \<and> unat (base (iter_state r)) = 3"
    using G[THEN conjunct1]
      fin[OF G[THEN conjunct2, THEN conjunct1] G[THEN conjunct2, THEN conjunct2, THEN conjunct1]]
    by (intro exI[of _ r]) simp
  show ?thesis
    using N inv wf 1 2 by (intro conjI) simp_all
qed

lemma recv_into_complete:
  assumes "cap \<le> length buf"
  shows "recv_into cap buf (take cap (snd (recv_into cap buf d))) = (cap, snd (recv_into cap buf d))"
proof -
  let ?n = "min (length d) cap"
  let ?b = "take ?n d @ drop ?n buf"
  have lb: "length ?b = length buf"
    using assms by simp
  have "drop cap ?b = drop cap buf"
    using assms by (simp add: min_def)
  then have "take cap ?b @ drop cap buf = ?b"
    by (metis append_take_drop_id)
  moreover have "min (length (take cap ?b)) cap = cap"
    using assms lb by simp
  ultimately show ?thesis
    using assms by (simp add: recv_into_def Let_def del: take_append drop_append)
qed

text \<open>
  Claim C1, amended. A datagram shorter than the 7-byte header is rejected, by the
  receiver and by the sender's ACK step: no state changes, nothing is sent, no payload
  is read. The length field of a header is not compared with the number of bytes
  received: a datagram of at least 7 bytes is handled exactly like the datagram made of
  all the bytes the receive buffer then holds (\<^verbatim>\<open>7 + payload_max\<close> in the receiver, 128
  in the sender), so that a payload cut short is completed by bytes of earlier
  datagrams.
\<close>

theorem short_datagram_rejected:
  "(length d < HDR \<longrightarrow>
      rx_step P st buf (p, d) = Next st (snd (recv_into (HDR + P) buf d)) NoResp
      \<and> (rcvd e = Some d \<longrightarrow> sender_recv c e sst = Some sst))
   \<and> (HDR \<le> length d \<and> HDR + P \<le> length buf \<longrightarrow>
        rx_step P st buf (p, d)
          = rx_step P st buf (p, take (HDR + P) (snd (recv_into (HDR + P) buf d))))
   \<and> (HDR \<le> length d \<and> rcvd e = Some d \<and> 128 \<le> length (abuf0 e) \<longrightarrow>
        sender_recv c e sst
          = sender_recv c (e\<lparr>rcvd := Some (take 128 (snd (recv_into 128 (abuf0 e) d)))\<rparr>) sst)"
proof (intro conjI impI)
  assume "length d < HDR"
  then show "rx_step P st buf (p, d) = Next st (snd (recv_into (HDR + P) buf d)) NoResp"
    by (rule rx_step_short)
next
  assume "length d < HDR" and "rcvd e = Some d"
  then show "sender_recv c e sst = Some sst"
    by (simp add: sender_recv_short)
next
  assume a: "HDR \<le> length d \<and> HDR + P \<le> length buf"
  let ?b = "snd (recv_into (HDR + P) buf d)"
  have "recv_into (HDR + P) buf (take (HDR + P) ?b) = (HDR + P, ?b)"
    using a by (intro recv_into_complete) simp
  then have "rx_step P st buf (p, take (HDR + P) ?b) = rx_packet P st ?b p"
    by (simp add: rx_step_def)
  then show "rx_step P st buf (p, d) = rx_step P st buf (p, take (HDR + P) ?b)"
    using a by (simp add: rx_step_long)
next
  assume a: "HDR \<le> length d \<and> rcvd e = Some d \<and> 128 \<le> length (abuf0 e)"
  obtain n b where nb: "recv_into 128 (abuf0 e) d = (n, b)"
    by (cases "recv_into 128 (abuf0 e) d")
  have bb: "snd (recv_into 128 (abuf0 e) d) = b"
    by (simp add: nb)
  have "recv_into 128 (abuf0 e) (take 128 (snd (recv_into 128 (abuf0 e) d)))
      = (128, snd (recv_into 128 (abuf0 e) d))"
    using a by (intro recv_into_complete) simp
  then have 1: "recv_into 128 (abuf0 e) (take 128 b) = (128, b)"
    by (simp only: bb)
  have "n = min (length d) 128"
    using recv_into_n[of 128 "abuf0 e" d] by (simp add: nb)
  then have "HDR \<le> n"
    using a by (simp add: HDR_def)
  then show "sender_recv c e sst
      = sender_recv c (e\<lparr>rcvd := Some (take 128 (snd (recv_into 128 (abuf0 e) d)))\<rparr>) sst"
    unfolding bb using a by (simp add: sender_recv_def 1 nb HDR_def)
qed

theorem short_datagram_rejected_witness:
  "length [16, 0, 0 :: byte] < HDR
   \<and> rx_step 512 demo_st demo_buf (1, [16, 0, 0]) = Next demo_st ([16, 0, 0] @ replicate 532 0) NoResp
   \<and> sender_recv demo_conf (demo_env\<lparr>rcvd := Some [16, 0, 0]\<rparr>) (s_init demo_conf)
       = Some (s_init demo_conf)"
proof -
  have h: "length [16, 0, 0 :: byte] < HDR"
    by (simp add: HDR_def)
  have r: "rcvd (demo_env\<lparr>rcvd := Some [16, 0, 0]\<rparr>) = Some [16, 0, 0]"
    by simp
  have b: "snd (recv_into (HDR + 512) demo_buf [16, 0, 0]) = [16, 0, 0] @ replicate 532 0"
    by (simp add: recv_into_buf demo_buf_def HDR_def)
  from short_datagram_rejected[of "[16, 0, 0]" 512 demo_st demo_buf 1
      "demo_env\<lparr>rcvd := Some [16, 0, 0]\<rparr>" demo_conf "s_init demo_conf"]
  show ?thesis
    using h r b by simp
qed

text \<open>
  Against claim C1 as stated: after a START of 15 bytes, a DATA datagram of 7 bytes
  whose length field says 8 is not rejected. Segment 1 is marked, an ACK is sent, and
  the 8 bytes stored in the sink are those the START had left behind the header in
  the buffer (byte 6 of the sink is the 4 of the announced length 1024).
\<close>

theorem stale_payload_counterexample:
  "case rx_run 512 rx_init demo_buf [(1, demo_start), (1, demo_data 1 0 8)] of
     None \<Rightarrow> False
   | Some (st, buf, outs) \<Rightarrow>
       length (demo_data 1 0 8) < HDR + unat (hdr_len (demo_data 1 0 8))
       \<and> outs = [Ack 1 0 0, Ack 1 1 0] \<and> have_bits st = [False, True, False]
       \<and> received st = 8 \<and> sink st ! 6 = 4"
  by (simp add: rx_eval replicate_2 sack_mask_eval advance_cum_eval nth_write_at)

text \<open>
  Claim C4. A DATA packet for a segment already received leaves the receiver's state
  as it was (bitmap, \<^verbatim>\<open>cum_ack\<close> and sink included) and is answered by one ACK. An ACK
  processed a second time by the sender, as the record \<^verbatim>\<open>(cum, mask)\<close> or as the same
  datagram received again, leaves the state that the first processing produced as it
  is, \<^verbatim>\<open>acked\<close>, \<^verbatim>\<open>tx_cnt\<close>, \<^verbatim>\<open>sent_ts\<close> and \<^verbatim>\<open>base\<close> included.
\<close>

theorem duplicates_change_nothing:
  "(started st \<and> HDR \<le> length d \<and> hdr_type d = PKT_DATA \<and> hdr_seq d \<noteq> 0
      \<and> hdr_seq d \<le> total_segs st \<and> have_bits st ! unat (hdr_seq d)
    \<longrightarrow> rx_step P st buf (p, d) = Next st (snd (recv_into (HDR + P) buf d)) (rx_ack p st))
   \<and> (cfg_total_segs c \<noteq> -1 \<and> ack_inv (cfg_total_segs c) sst
    \<longrightarrow> (\<exists>sst'. process_ack (cfg_total_segs c) cum m sst = Some sst'
            \<and> process_ack (cfg_total_segs c) cum m sst' = Some sst'
            \<and> tx_cnt sst' = tx_cnt sst \<and> sent_ts sst' = sent_ts sst)
        \<and> (\<exists>sst'. sender_recv c e sst = Some sst' \<and> sender_recv c e sst' = Some sst'))"
proof (intro conjI impI)
  assume a: "started st \<and> HDR \<le> length d \<and> hdr_type d = PKT_DATA \<and> hdr_seq d \<noteq> 0
      \<and> hdr_seq d \<le> total_segs st \<and> have_bits st ! unat (hdr_seq d)"
  then show "rx_step P st buf (p, d) = Next st (snd (recv_into (HDR + P) buf d)) (rx_ack p st)"
    by (simp add: rx_step_long rx_packet_data_dup hdr_recv)
next
  assume a: "cfg_total_segs c \<noteq> -1 \<and> ack_inv (cfg_total_segs c) sst"
  then have N: "cfg_total_segs c \<noteq> -1" and inv: "ack_inv (cfg_total_segs c) sst"
    by simp_all
  have len: "length (acked sst) = unat (cfg_total_segs c) + 1"
    using inv by (simp add: ack_inv_def)
  obtain sst' where H: "process_ack (cfg_total_segs c) cum m sst = Some sst'
      \<and> sst' = sst\<lparr>base := base sst', acked := acked sst', in_flight := in_flight sst'\<rparr>
      \<and> (\<forall>k. 1 \<le> k \<and> k \<le> unat (cfg_total_segs c) \<longrightarrow>
          (acked sst' ! k \<longleftrightarrow> acked sst ! k \<or> (unat (base sst) \<le> k \<and> k \<le> unat cum)
             \<or> (\<exists>i<64. bit m i \<and> k = unat cum + 1 + i)))
      \<and> base sst \<le> base sst' \<and> ack_inv (cfg_total_segs c) sst'"
    using process_ack_result[OF N inv, of cum m] by (elim exE) (rule that)
  then have r: "process_ack (cfg_total_segs c) cum m sst = Some sst'"
    and f: "sst' = sst\<lparr>base := base sst', acked := acked sst', in_flight := in_flight sst'\<rparr>"
    by simp_all
  have "tx_cnt sst' = tx_cnt sst" "sent_ts sst' = sent_ts sst"
    by (subst f, simp)+
  moreover have "process_ack (cfg_total_segs c) cum m sst' = Some sst'"
    using N len r by (rule process_ack_idem)
  ultimately show "\<exists>sst'. process_ack (cfg_total_segs c) cum m sst = Some sst'
            \<and> process_ack (cfg_total_segs c) cum m sst' = Some sst'
            \<and> tx_cnt sst' = tx_cnt sst \<and> sent_ts sst' = sent_ts sst"
    using r by (intro exI[of _ sst']) simp
  from sender_recv_result[OF N inv, of e]
  obtain s2 where s2: "sender_recv c e sst = Some s2"
    by blast
  then have "sender_recv c e s2 = Some s2"
    using N len by (intro sender_recv_idem)
  then show "\<exists>sst'. sender_recv c e sst = Some sst' \<and> sender_recv c e sst' = Some sst'"
    using s2 by simp
qed

theorem duplicates_change_nothing_witness:
  "rx_step 512 (demo_st\<lparr>have_bits := [False, True, False], cum_ack := 1\<rparr>) demo_buf
      (1, demo_data 1 0 0)
     = Next (demo_st\<lparr>have_bits := [False, True, False], cum_ack := 1\<rparr>)
         (demo_data 1 0 0 @ replicate 528 0) (Ack 1 1 0)
   \<and> (\<exists>sst'. sender_recv demo_conf (demo_env\<lparr>rcvd := Some (demo_ack 1 2)\<rparr>) (s_init demo_conf)
                = Some sst'
         \<and> sender_recv demo_conf (demo_env\<lparr>rcvd := Some (demo_ack 1 2)\<rparr>) sst' = Some sst')"
proof -
  let ?st = "demo_st\<lparr>have_bits := [False, True, False], cum_ack := 1\<rparr>"
  have h: "started ?st \<and> HDR \<le> length (demo_data 1 0 0) \<and> hdr_type (demo_data 1 0 0) = PKT_DATA
      \<and> hdr_seq (demo_data 1 0 0) \<noteq> 0 \<and> hdr_seq (demo_data 1 0 0) \<le> total_segs ?st
      \<and> have_bits ?st ! unat (hdr_seq (demo_data 1 0 0))"
    by (simp add: demo_st_def demo_data_def HDR_def hdr_type_def PKT_DATA_def hdr_seq_def
        field_def be_nat_def)
  have g: "cfg_total_segs demo_conf \<noteq> -1
      \<and> ack_inv (cfg_total_segs demo_conf) (s_init demo_conf)"
    by (simp add: demo_conf_segs ack_inv_init[of demo_conf, unfolded demo_conf_segs])
  have b: "snd (recv_into (HDR + 512) demo_buf (demo_data 1 0 0)) = demo_data 1 0 0 @ replicate 528 0"
    by (simp add: recv_into_buf demo_buf_def demo_data_def HDR_def)
  have a: "rx_ack 1 ?st = Ack 1 1 0"
    by (simp add: rx_ack_def demo_st_def sack_mask_eval)
  note t = duplicates_change_nothing[of ?st "demo_data 1 0 0" 512 demo_buf 1 demo_conf
      "s_init demo_conf" 1 2 "demo_env\<lparr>rcvd := Some (demo_ack 1 2)\<rparr>"]
  have 1: "rx_step 512 ?st demo_buf (1, demo_data 1 0 0)
      = Next ?st (demo_data 1 0 0 @ replicate 528 0) (Ack 1 1 0)"
    using t h by (simp only: b a) simp
  have 2: "\<exists>sst'. sender_recv demo_conf (demo_env\<lparr>rcvd := Some (demo_ack 1 2)\<rparr>) (s_init demo_conf)
                = Some sst'
         \<and> sender_recv demo_conf (demo_env\<lparr>rcvd := Some (demo_ack 1 2)\<rparr>) sst' = Some sst'"
    using t g by blast
  show ?thesis
    using 1 2 by (intro conjI)
qed

section \<open>Transmission counts\<close>

lemma retransmit_exhausted:
  assumes "s \<le> k" and "k < next_to_send st" and "k \<noteq> 0" and "k \<le> cfg_total_segs c"
    and "\<not> acked st ! unat k" and "cfg_retries c \<le> tx_cnt st ! unat k"
  shows "\<exists>st' new. retransmit rnd c t s st = Failed st'
    \<and> tx_cnt st' ! unat k = tx_cnt st ! unat k
    \<and> sent_data st' = new @ sent_data st \<and> k \<notin> fst ` set new"
  using assms
proof (induction rnd c t s st rule: retransmit.induct)
  case (1 rnd c t s st)
  note k = "1.prems"
  have lt: "s < next_to_send st"
    using k(1,2) by simp
  show ?case
  proof (cases "s = k")
    case True
    have "\<not> cfg_total_segs c < k"
      using k(4) by simp
    then have "retransmit rnd c t s st = Failed st"
      using True k by (subst retransmit.simps) simp
    then show ?thesis
      by (intro exI[of _ st] exI[of _ "[]"]) simp
  next
    case False
    then have sk: "s < k"
      using k(1) by simp
    then have s1: "s + 1 \<le> k"
      by (rule inc_le)
    have ne: "unat s \<noteq> unat k"
      using False by (simp add: word_unat_eq_iff)
    show ?thesis
    proof (cases "s = 0 \<or> s > cfg_total_segs c")
      case True
      then have e: "retransmit rnd c t s st = retransmit rnd c t (s + 1) st"
        using lt by (subst retransmit.simps) simp
      show ?thesis
        unfolding e using "1.IH"(1)[OF lt True s1 k(2-6)] .
    next
      case rng: False
      show ?thesis
      proof (cases "acked st ! unat s")
        case True
        then have e: "retransmit rnd c t s st = retransmit rnd c t (s + 1) st"
          using lt rng by (subst retransmit.simps) simp
        show ?thesis
          unfolding e using "1.IH"(2)[OF lt rng True s1 k(2-6)] .
      next
        case na: False
        show ?thesis
        proof (cases "tx_cnt st ! unat s \<ge> cfg_retries c")
          case True
          then have "retransmit rnd c t s st = Failed st"
            using lt rng na by (subst retransmit.simps) simp
          then show ?thesis
            by (intro exI[of _ st] exI[of _ "[]"]) simp
        next
          case lim: False
          show ?thesis
          proof (cases "timed_out rnd c t (sent_ts st ! unat s)")
            case True
            let ?u = "resend c t s st"
            have e: "retransmit rnd c t s st = retransmit rnd c t (s + 1) ?u"
              using lt rng na lim True by (subst retransmit.simps) simp
            have tk: "tx_cnt ?u ! unat k = tx_cnt st ! unat k"
              using ne by (simp add: resend_fields)
            have "k < next_to_send ?u" "\<not> acked ?u ! unat k"
              "cfg_retries c \<le> tx_cnt ?u ! unat k"
              using k(2,5,6) by (simp_all add: resend_fields(1,2) tk)
            from "1.IH"(3)[OF lt rng na lim True s1 this(1) k(3,4) this(2,3)]
            obtain st' new where r: "retransmit rnd c t (s + 1) ?u = Failed st'"
              and t': "tx_cnt st' ! unat k = tx_cnt ?u ! unat k"
              and d: "sent_data st' = new @ sent_data ?u" and n: "k \<notin> fst ` set new"
              by blast
            have "sent_data st' = (new @ [data_pkt c s]) @ sent_data st"
              using d by (simp add: resend_fields)
            moreover have "k \<notin> fst ` set (new @ [data_pkt c s])"
              using n False by (simp add: data_pkt_def)
            ultimately show ?thesis
              unfolding e using r t' tk by (intro exI[of _ st'] exI[of _ "new @ [data_pkt c s]"]) simp
          next
            case False
            then have e: "retransmit rnd c t s st = retransmit rnd c t (s + 1) st"
              using lt rng na lim by (subst retransmit.simps) simp
            show ?thesis
              unfolding e using "1.IH"(4)[OF lt rng na lim False s1 k(2-6)] .
          qed
        qed
      qed
    qed
  qed
qed

lemma sent_inv_init: "sent_inv c (s_init c)"
proof -
  have "\<not> replicate (unat (cfg_total_segs c) + 1) False ! k" if "k \<le> unat (cfg_total_segs c)" for k
    using that by (simp del: replicate_Suc replicate.simps)
  then show ?thesis
    unfolding sent_inv_def s_init_def by (simp del: replicate_Suc replicate.simps)
qed

lemma sent_inv_transmit_new:
  assumes ti: "tx_inv c st" and si: "sent_inv c st"
    and N: "cfg_total_segs c \<noteq> -1" and le: "next_to_send st \<le> cfg_total_segs c"
    and ok: "send_ok e (next_to_send st)"
  shows "sent_inv c (transmit_new c e st)"
proof -
  let ?n = "unat (next_to_send st)" and ?N = "unat (cfg_total_segs c)"
  have u: "unat (next_to_send st + 1) = ?n + 1"
    using le N by (rule unat_succ_le)
  have nN: "?n \<le> ?N"
    using le by (simp add: word_le_nat_alt)
  have len: "length (tx_cnt st) = ?N + 1"
    and zero: "\<forall>k. ?n \<le> k \<and> k \<le> ?N \<longrightarrow> tx_cnt st ! k = 0"
    using ti by (simp_all add: tx_inv_def)
  have t: "tx_cnt (transmit_new c e st) ! k = (if k = ?n then 1 else tx_cnt st ! k)"
    if "k \<le> ?N" for k
    using that len nN zero ok by (simp add: transmit_new_fields nth_list_update)
  have a: "k < ?n + 1" if "1 \<le> k \<and> k \<le> ?N \<and> acked st ! k" for k
    using that si by (auto simp add: sent_inv_def less_Suc_eq)
  have b: "1 \<le> tx_cnt (transmit_new c e st) ! k" if "1 \<le> k \<and> k < ?n + 1" for k
  proof -
    have "k \<le> ?N"
      using that nN by simp
    then show ?thesis
      using that si by (auto simp add: t sent_inv_def)
  qed
  show ?thesis
    unfolding sent_inv_def using a b by (simp add: transmit_new_fields(1,2) u)
qed

lemma nth_bump_ge: "(xs :: int list) ! k \<le> xs[i := xs ! i + 1] ! k"
proof (cases "i < length xs")
  case True
  then show ?thesis
    by (simp add: nth_list_update)
next
  case False
  then have "xs[i := xs ! i + 1] = xs"
    by (intro list_update_beyond) simp
  then show ?thesis
    by simp
qed

lemma fair_iter_result:
  assumes N: "cfg_total_segs c \<noteq> -1" and R: "1 \<le> cfg_retries c"
    and ti: "tx_inv c st" and si: "sent_inv c st"
    and fair: "fair_iter c e st" and r: "sender_iter rnd c e st = Some r"
  shows "sent_inv c (iter_state r)"
proof -
  let ?N = "cfg_total_segs c"
  have ok: "send_ok e s" for s
    using fair by (simp add: fair_iter_def)
  define I1 where "I1 = (\<lambda>s :: sstate. tx_inv c s \<and> sent_inv c s)"
  have "\<exists>st1. send_new c e st = Some st1 \<and> I1 st1"
  proof (rule send_new_rule[OF N])
    show "I1 st"
      using ti si by (simp add: I1_def)
    show "I1 (transmit_new c e s)" if "I1 s" "next_to_send s \<le> ?N" for s
      using that R N ok by (simp add: I1_def tx_inv_transmit_new sent_inv_transmit_new)
  qed
  then obtain st1 where r1: "send_new c e st = Some st1" and s1: "sent_inv c st1"
    by (auto simp add: I1_def)
  obtain st2 where r2: "sender_recv c e st1 = Some st2"
    and r3: "r = retransmit rnd c (now e) (base st2) st2"
    using r r1 by (auto simp add: sender_iter_def split: option.splits)
  have f: "\<forall>k. 1 \<le> k \<and> k \<le> unat ?N \<and> acked st2 ! k
      \<longrightarrow> acked st1 ! k \<or> k < unat (next_to_send st1)"
    using fair by (simp add: fair_iter_def r1 r2)
  have "sender_recv c e st1 = Some st1
     \<or> (\<exists>cum m. sender_recv c e st1 = process_ack ?N cum m st1)"
    using sender_recv_cases[of c e st1] by blast
  then have same: "tx_cnt st2 = tx_cnt st1 \<and> next_to_send st2 = next_to_send st1"
  proof
    assume "sender_recv c e st1 = Some st1"
    then show ?thesis using r2 by simp
  next
    assume "\<exists>cum m. sender_recv c e st1 = process_ack ?N cum m st1"
    then obtain cum m where p: "process_ack ?N cum m st1 = Some st2"
      using r2 by auto
    obtain x1 c1 x3 c2 where H: "process_ack ?N cum m st1 = Some (x3\<lparr>base := c2\<rparr>)
    \<and> x1 = st1\<lparr>acked := acked x1, in_flight := in_flight x1\<rparr>
    \<and> length (acked x1) = length (acked st1)
    \<and> (\<forall>k<length (acked st1). acked x1 ! k \<longleftrightarrow>
          acked st1 ! k \<or> (unat (base st1) \<le> k \<and> k \<le> unat cum \<and> k \<le> unat ?N))
    \<and> base st1 \<le> c1 \<and> (c1 \<le> ?N \<longrightarrow> \<not> acked x1 ! unat c1)
    \<and> (\<forall>k. unat (base st1) \<le> k \<and> k < unat c1 \<longrightarrow> acked x1 ! k)
    \<and> (base st1 \<le> ?N + 1 \<longrightarrow> c1 \<le> ?N + 1)
    \<and> x3 = st1\<lparr>base := c1, acked := acked x3, in_flight := in_flight x3\<rparr>
    \<and> length (acked x3) = length (acked st1)
    \<and> (\<forall>k<length (acked st1). acked x3 ! k \<longleftrightarrow> acked x1 ! k
          \<or> (\<exists>i<64. bit m i \<and> cum + 1 + of_nat i \<le> ?N \<and> unat (cum + 1 + of_nat i) = k))
    \<and> c1 \<le> c2 \<and> (c2 \<le> ?N \<longrightarrow> \<not> acked x3 ! unat c2)
    \<and> (\<forall>k. unat c1 \<le> k \<and> k < unat c2 \<longrightarrow> acked x3 ! k)
    \<and> (c1 \<le> ?N + 1 \<longrightarrow> c2 \<le> ?N + 1)"
      using process_ack_steps[OF N, of cum m st1] by (elim exE) (rule that)
    then have e2: "st2 = x3\<lparr>base := c2\<rparr>"
      and f3: "x3 = st1\<lparr>base := c1, acked := acked x3, in_flight := in_flight x3\<rparr>"
      using p by simp_all
    have "tx_cnt x3 = tx_cnt st1" "next_to_send x3 = next_to_send st1"
      by (subst f3, simp)+
    then show ?thesis
      by (simp add: e2)
  qed
  have s2: "sent_inv c st2"
    using s1 f same unfolding sent_inv_def by auto
  define I3 where "I3 = (\<lambda>s :: sstate. acked s = acked st2 \<and> next_to_send s = next_to_send st2
      \<and> (\<forall>k. tx_cnt st2 ! k \<le> tx_cnt s ! k))"
  have "case retransmit rnd c (now e) (base st2) st2 of Failed st' \<Rightarrow> I3 st' | Running st' \<Rightarrow> I3 st'"
  proof (rule retransmit_rule)
    show "I3 st2"
      by (simp add: I3_def)
    show "I3 (resend c (now e) s u)" if "I3 u" for s u
    proof -
      have "tx_cnt st2 ! k \<le> tx_cnt (resend c (now e) s u) ! k" for k
      proof -
        have "tx_cnt st2 ! k \<le> tx_cnt u ! k"
          using that by (simp add: I3_def)
        also have "\<dots> \<le> (tx_cnt u)[unat s := tx_cnt u ! unat s + 1] ! k"
          by (rule nth_bump_ge)
        finally show ?thesis
          by (simp add: resend_fields)
      qed
      then show ?thesis
        using that by (simp add: I3_def resend_fields)
    qed
  qed
  then have "I3 (iter_state r)"
    unfolding r3 by (cases "retransmit rnd c (now e) (base st2) st2") simp_all
  then have a3: "acked (iter_state r) = acked st2"
    and n3: "next_to_send (iter_state r) = next_to_send st2"
    and t3: "\<forall>k. tx_cnt st2 ! k \<le> tx_cnt (iter_state r) ! k"
    by (simp_all add: I3_def)
  have "1 \<le> tx_cnt (iter_state r) ! k" if "1 \<le> k \<and> k < unat (next_to_send st2)" for k
  proof -
    have "1 \<le> tx_cnt st2 ! k"
      using that s2 by (simp add: sent_inv_def)
    also have "\<dots> \<le> tx_cnt (iter_state r) ! k"
      using t3 by simp
    finally show ?thesis .
  qed
  then show ?thesis
    using s2 unfolding sent_inv_def a3 n3 by simp
qed

lemma fair_run_result:
  assumes N: "cfg_total_segs c \<noteq> -1" and R: "1 \<le> cfg_retries c"
    and ai: "ack_inv (cfg_total_segs c) st" and ti: "tx_inv c st" and si: "sent_inv c st"
    and fair: "fair_run rnd c st es" and run: "sender_run rnd c st es = Some r"
  shows "sent_inv c (final_state r)"
  using ai ti si fair run
proof (induction es arbitrary: st)
  case Nil
  then show ?case by auto
next
  case (Cons e es)
  show ?case
  proof (cases "base st \<le> cfg_total_segs c")
    case False
    then show ?thesis
      using Cons.prems by auto
  next
    case True
    from sender_iter_result[OF N R Cons.prems(1,2), of rnd e]
    obtain r0 where r0: "sender_iter rnd c e st = Some r0"
      and ai': "ack_inv (cfg_total_segs c) (iter_state r0)" and ti': "tx_inv c (iter_state r0)"
      by blast
    have fi: "fair_iter c e st"
      using Cons.prems(4) True by simp
    have si': "sent_inv c (iter_state r0)"
      using N R Cons.prems(2,3) fi r0 by (rule fair_iter_result)
    show ?thesis
    proof (cases r0)
      case (Failed st')
      then have "r = Exit1 st'"
        using Cons.prems(5) True r0 by simp
      then show ?thesis
        using si' Failed by simp
    next
      case (Running st')
      then have "sender_run rnd c st' es = Some r" "fair_run rnd c st' es"
        using Cons.prems(4,5) True r0 by simp_all
      moreover have "ack_inv (cfg_total_segs c) st'" "tx_inv c st'" "sent_inv c st'"
        using ai' ti' si' Running by simp_all
      ultimately show ?thesis
        using Cons.IH by blast
    qed
  qed
qed

lemma retransmit_scan:
  "\<exists>new. sent_data (iter_state (retransmit rnd c t s st)) = new @ sent_data st
     \<and> (\<forall>p \<in> set new. s \<le> fst p)
     \<and> (\<forall>k. k < s \<longrightarrow> tx_cnt (iter_state (retransmit rnd c t s st)) ! unat k = tx_cnt st ! unat k)"
proof (induction rnd c t s st rule: retransmit.induct)
  case (1 rnd c t s st)
  show ?case
  proof (cases "s < next_to_send st")
    case False
    then have "retransmit rnd c t s st = Running st"
      by (subst retransmit.simps) simp
    then show ?thesis
      by simp
  next
    case lt: True
    then have s1: "s \<le> s + 1" and ss: "s < s + 1"
      by unat_arith+
    have up: "\<exists>new. sent_data (iter_state (retransmit rnd c t (s + 1) u)) = new @ sent_data st
        \<and> (\<forall>p \<in> set new. s \<le> fst p)
        \<and> (\<forall>k. k < s \<longrightarrow> tx_cnt (iter_state (retransmit rnd c t (s + 1) u)) ! unat k = tx_cnt st ! unat k)"
      if IH: "\<exists>new. sent_data (iter_state (retransmit rnd c t (s + 1) u)) = new @ sent_data u
        \<and> (\<forall>p \<in> set new. s + 1 \<le> fst p)
        \<and> (\<forall>k. k < s + 1 \<longrightarrow> tx_cnt (iter_state (retransmit rnd c t (s + 1) u)) ! unat k = tx_cnt u ! unat k)"
        and u: "u = st \<or> u = resend c t s st" for u
    proof -
      obtain new where n: "sent_data (iter_state (retransmit rnd c t (s + 1) u)) = new @ sent_data u"
        and ge: "\<forall>p \<in> set new. s + 1 \<le> fst p"
        and keep: "\<forall>k. k < s + 1 \<longrightarrow> tx_cnt (iter_state (retransmit rnd c t (s + 1) u)) ! unat k = tx_cnt u ! unat k"
        using IH by blast
      have ge': "\<forall>p \<in> set new. s \<le> fst p"
        using ge s1 by auto
      have keep': "tx_cnt (iter_state (retransmit rnd c t (s + 1) u)) ! unat k = tx_cnt st ! unat k"
        if "k < s" for k
      proof -
        have "k < s + 1"
          using that ss by simp
        moreover have "unat k \<noteq> unat s"
          using that by (simp add: word_less_nat_alt)
        then have "tx_cnt u ! unat k = tx_cnt st ! unat k"
          using u by (auto simp add: resend_fields)
        ultimately show ?thesis
          using keep by simp
      qed
      from u show ?thesis
      proof
        assume "u = st"
        then show ?thesis
          using n ge' keep' by auto
      next
        assume r: "u = resend c t s st"
        then have "sent_data (iter_state (retransmit rnd c t (s + 1) u))
            = (new @ [data_pkt c s]) @ sent_data st"
          using n by (simp add: resend_fields)
        moreover have "\<forall>p \<in> set (new @ [data_pkt c s]). s \<le> fst p"
          using ge' by (simp add: data_pkt_def)
        ultimately show ?thesis
          using keep' by blast
      qed
    qed
    show ?thesis
    proof (cases "s = 0 \<or> s > cfg_total_segs c")
      case True
      then have e: "retransmit rnd c t s st = retransmit rnd c t (s + 1) st"
        using lt by (subst retransmit.simps) simp
      show ?thesis
        unfolding e using "1.IH"(1)[OF lt True] by (intro up) simp_all
    next
      case rng: False
      show ?thesis
      proof (cases "acked st ! unat s")
        case True
        then have e: "retransmit rnd c t s st = retransmit rnd c t (s + 1) st"
          using lt rng by (subst retransmit.simps) simp
        show ?thesis
          unfolding e using "1.IH"(2)[OF lt rng True] by (intro up) simp_all
      next
        case na: False
        show ?thesis
        proof (cases "tx_cnt st ! unat s \<ge> cfg_retries c")
          case True
          then have "retransmit rnd c t s st = Failed st"
            using lt rng na by (subst retransmit.simps) simp
          then show ?thesis
            by simp
        next
          case lim: False
          show ?thesis
          proof (cases "timed_out rnd c t (sent_ts st ! unat s)")
            case True
            then have e: "retransmit rnd c t s st = retransmit rnd c t (s + 1) (resend c t s st)"
              using lt rng na lim by (subst retransmit.simps) simp
            show ?thesis
              unfolding e using "1.IH"(3)[OF lt rng na lim True] by (intro up) simp_all
          next
            case False
            then have e: "retransmit rnd c t s st = retransmit rnd c t (s + 1) st"
              using lt rng na lim by (subst retransmit.simps) simp
            show ?thesis
              unfolding e using "1.IH"(4)[OF lt rng na lim False] by (intro up) simp_all
          qed
        qed
      qed
    qed
  qed
qed

lemma retransmit_resends:
  assumes s: "s < next_to_send st" "s \<noteq> 0" "s \<le> cfg_total_segs c"
    and na: "\<not> acked st ! unat s" and lim: "tx_cnt st ! unat s < cfg_retries c"
    and len: "unat s < length (tx_cnt st)"
  shows "\<exists>new. sent_data (iter_state (retransmit rnd c t s st))
        = new @ (if timed_out rnd c t (sent_ts st ! unat s) then [data_pkt c s] else [])
            @ sent_data st
     \<and> s \<notin> fst ` set new
     \<and> tx_cnt (iter_state (retransmit rnd c t s st)) ! unat s
        = tx_cnt st ! unat s + (if timed_out rnd c t (sent_ts st ! unat s) then 1 else 0)"
proof -
  let ?u = "if timed_out rnd c t (sent_ts st ! unat s) then resend c t s st else st"
  have ss: "s < s + 1"
    using s(1) by unat_arith
  have "\<not> cfg_total_segs c < s" "\<not> cfg_retries c \<le> tx_cnt st ! unat s"
    using s(3) lim by simp_all
  then have e: "retransmit rnd c t s st = retransmit rnd c t (s + 1) ?u"
    using s(1,2) na by (subst retransmit.simps) simp
  obtain new where n: "sent_data (iter_state (retransmit rnd c t (s + 1) ?u)) = new @ sent_data ?u"
    and ge: "\<forall>p \<in> set new. s + 1 \<le> fst p"
    and keep: "\<forall>k. k < s + 1 \<longrightarrow>
        tx_cnt (iter_state (retransmit rnd c t (s + 1) ?u)) ! unat k = tx_cnt ?u ! unat k"
    using retransmit_scan[of rnd c t "s + 1" ?u] by blast
  have "s \<notin> fst ` set new"
  proof
    assume "s \<in> fst ` set new"
    then have "s + 1 \<le> s"
      using ge by auto
    then show False
      using ss by simp
  qed
  moreover have "sent_data ?u
      = (if timed_out rnd c t (sent_ts st ! unat s) then [data_pkt c s] else []) @ sent_data st"
    by (simp add: resend_fields)
  moreover have "tx_cnt ?u ! unat s
      = tx_cnt st ! unat s + (if timed_out rnd c t (sent_ts st ! unat s) then 1 else 0)"
    using len by (simp add: resend_fields)
  ultimately show ?thesis
    unfolding e using n keep[rule_format, OF ss] by (intro exI[of _ new]) simp
qed

text \<open>
  Claim C7, amended. With \<^verbatim>\<open>retries\<close> at least 1 (and \<^verbatim>\<open>total_segs + 1\<close> representable
  in 32 bits), every run of the bulk loop from the initial state returns, and
  \<^verbatim>\<open>tx_cnt[k]\<close> never exceeds \<^verbatim>\<open>retries\<close>. When the loop has ended and END is transmitted
  next, every segment from 1 to \<^verbatim>\<open>N\<close> is acknowledged; each has \<^verbatim>\<open>tx_cnt[k] \<ge> 1\<close> provided
  that every \<^verbatim>\<open>sendmsg\<close> of a new segment succeeded and no ACK acknowledged a segment not
  yet handed to \<^verbatim>\<open>sendmsg\<close>. When the retransmission scan, started at \<^verbatim>\<open>s\<close>, meets a
  segment \<^verbatim>\<open>k\<close> in the window that is not acknowledged and has \<^verbatim>\<open>tx_cnt[k] \<ge> retries\<close>,
  it ends in \<^verbatim>\<open>exit(1)\<close> with \<^verbatim>\<open>tx_cnt[k]\<close> unchanged and no DATA packet for \<^verbatim>\<open>k\<close> among
  those sent during the scan; and an iteration in which steps 1 and 2 leave such a
  segment at or after \<^verbatim>\<open>base\<close> ends the bulk loop with that exit. A segment of the window that is not acknowledged and has
  \<^verbatim>\<open>tx_cnt\<close> below \<^verbatim>\<open>retries\<close> is retransmitted by the scan exactly when its timeout has
  passed: then one DATA packet for it is handed to \<^verbatim>\<open>sendmsg\<close> and its \<^verbatim>\<open>tx_cnt\<close> grows by
  one, otherwise none is sent and its \<^verbatim>\<open>tx_cnt\<close> stays.
\<close>

theorem transmission_counts:
  assumes N: "cfg_total_segs c \<noteq> -1" and R: "1 \<le> cfg_retries c"
  shows "(\<exists>r. sender_run rnd c (s_init c) es = Some r
           \<and> (\<forall>k. k \<le> unat (cfg_total_segs c) \<longrightarrow> tx_cnt (final_state r) ! k \<le> cfg_retries c)
           \<and> (\<forall>st. r = AtEnd st \<longrightarrow>
                 (\<forall>k. 1 \<le> k \<and> k \<le> unat (cfg_total_segs c) \<longrightarrow> acked st ! k)
                 \<and> (fair_run rnd c (s_init c) es \<longrightarrow>
                      (\<forall>k. 1 \<le> k \<and> k \<le> unat (cfg_total_segs c) \<longrightarrow> 1 \<le> tx_cnt st ! k))))
       \<and> (s \<le> k \<and> k < next_to_send st \<and> k \<noteq> 0 \<and> k \<le> cfg_total_segs c
            \<and> \<not> acked st ! unat k \<and> cfg_retries c \<le> tx_cnt st ! unat k
          \<longrightarrow> (\<exists>st' new. retransmit rnd c t s st = Failed st'
                 \<and> tx_cnt st' ! unat k = tx_cnt st ! unat k
                 \<and> sent_data st' = new @ sent_data st \<and> k \<notin> fst ` set new))
       \<and> (base st0 \<le> cfg_total_segs c \<and> send_new c e st0 = Some st1
            \<and> sender_recv c e st1 = Some st2
            \<and> base st2 \<le> q \<and> q < next_to_send st2 \<and> q \<noteq> 0 \<and> q \<le> cfg_total_segs c
            \<and> \<not> acked st2 ! unat q \<and> cfg_retries c \<le> tx_cnt st2 ! unat q
          \<longrightarrow> (\<exists>sf new. sender_run rnd c st0 (e # es') = Some (Exit1 sf)
                 \<and> tx_cnt sf ! unat q = tx_cnt st2 ! unat q
                 \<and> sent_data sf = new @ sent_data st2 \<and> q \<notin> fst ` set new))
       \<and> (j < next_to_send u \<and> j \<noteq> 0 \<and> j \<le> cfg_total_segs c \<and> \<not> acked u ! unat j
            \<and> tx_cnt u ! unat j < cfg_retries c \<and> unat j < length (tx_cnt u)
          \<longrightarrow> (\<exists>new. sent_data (iter_state (retransmit rnd c t' j u))
                    = new @ (if timed_out rnd c t' (sent_ts u ! unat j) then [data_pkt c j] else [])
                        @ sent_data u
                 \<and> j \<notin> fst ` set new
                 \<and> tx_cnt (iter_state (retransmit rnd c t' j u)) ! unat j
                    = tx_cnt u ! unat j
                      + (if timed_out rnd c t' (sent_ts u ! unat j) then 1 else 0)))"
proof (intro conjI impI)
  let ?N = "cfg_total_segs c"
  have R0: "0 \<le> cfg_retries c"
    using R by simp
  from sender_run_result[OF N R ack_inv_init tx_inv_init[OF R0], of rnd es]
  obtain r where r: "sender_run rnd c (s_init c) es = Some r"
    and ai: "ack_inv ?N (final_state r)" and ti: "tx_inv c (final_state r)"
    and e: "\<forall>st'. r = AtEnd st' \<longrightarrow> \<not> base st' \<le> ?N"
    by blast
  have 1: "\<forall>k. k \<le> unat ?N \<longrightarrow> tx_cnt (final_state r) ! k \<le> cfg_retries c"
    using ti by (simp add: tx_inv_def)
  have 2: "(\<forall>k. 1 \<le> k \<and> k \<le> unat ?N \<longrightarrow> acked st ! k)
      \<and> (fair_run rnd c (s_init c) es \<longrightarrow> (\<forall>k. 1 \<le> k \<and> k \<le> unat ?N \<longrightarrow> 1 \<le> tx_cnt st ! k))"
    if a: "r = AtEnd st" for st
  proof -
    have "unat ?N < unat (base st)"
      using e a by (simp add: word_le_nat_alt)
    moreover have "\<forall>k. 1 \<le> k \<and> k < unat (base st) \<longrightarrow> acked st ! k"
      using ai a by (simp add: ack_inv_def base_is_least_def)
    ultimately have all: "\<forall>k. 1 \<le> k \<and> k \<le> unat ?N \<longrightarrow> acked st ! k"
      by simp
    have "1 \<le> tx_cnt st ! k" if f: "fair_run rnd c (s_init c) es" and k: "1 \<le> k \<and> k \<le> unat ?N" for k
    proof -
      have "sent_inv c (final_state r)"
        using N R ack_inv_init tx_inv_init[OF R0] sent_inv_init f r by (rule fair_run_result)
      then have s: "sent_inv c st"
        using a by simp
      have "acked st ! k"
        using all k by simp
      then have "k < unat (next_to_send st)"
        using s k unfolding sent_inv_def by blast
      then show ?thesis
        using s k unfolding sent_inv_def by blast
    qed
    then show ?thesis
      using all by blast
  qed
  show "\<exists>r. sender_run rnd c (s_init c) es = Some r
           \<and> (\<forall>k. k \<le> unat ?N \<longrightarrow> tx_cnt (final_state r) ! k \<le> cfg_retries c)
           \<and> (\<forall>st. r = AtEnd st \<longrightarrow>
                 (\<forall>k. 1 \<le> k \<and> k \<le> unat ?N \<longrightarrow> acked st ! k)
                 \<and> (fair_run rnd c (s_init c) es \<longrightarrow>
                      (\<forall>k. 1 \<le> k \<and> k \<le> unat ?N \<longrightarrow> 1 \<le> tx_cnt st ! k)))"
    using r 1 2 by (intro exI[of _ r]) blast
next
  assume "s \<le> k \<and> k < next_to_send st \<and> k \<noteq> 0 \<and> k \<le> cfg_total_segs c
            \<and> \<not> acked st ! unat k \<and> cfg_retries c \<le> tx_cnt st ! unat k"
  then show "\<exists>st' new. retransmit rnd c t s st = Failed st'
                 \<and> tx_cnt st' ! unat k = tx_cnt st ! unat k
                 \<and> sent_data st' = new @ sent_data st \<and> k \<notin> fst ` set new"
    by (intro retransmit_exhausted) simp_all
next
  assume a: "base st0 \<le> cfg_total_segs c \<and> send_new c e st0 = Some st1
            \<and> sender_recv c e st1 = Some st2
            \<and> base st2 \<le> q \<and> q < next_to_send st2 \<and> q \<noteq> 0 \<and> q \<le> cfg_total_segs c
            \<and> \<not> acked st2 ! unat q \<and> cfg_retries c \<le> tx_cnt st2 ! unat q"
  then have "\<exists>st' new. retransmit rnd c (now e) (base st2) st2 = Failed st'
                 \<and> tx_cnt st' ! unat q = tx_cnt st2 ! unat q
                 \<and> sent_data st' = new @ sent_data st2 \<and> q \<notin> fst ` set new"
    by (intro retransmit_exhausted) simp_all
  then obtain sf new where f: "retransmit rnd c (now e) (base st2) st2 = Failed sf"
    and k: "tx_cnt sf ! unat q = tx_cnt st2 ! unat q"
      "sent_data sf = new @ sent_data st2" "q \<notin> fst ` set new"
    by blast
  have "sender_iter rnd c e st0 = Some (Failed sf)"
    using a f by (simp add: sender_iter_def)
  then have "sender_run rnd c st0 (e # es') = Some (Exit1 sf)"
    using a by simp
  then show "\<exists>sf new. sender_run rnd c st0 (e # es') = Some (Exit1 sf)
                 \<and> tx_cnt sf ! unat q = tx_cnt st2 ! unat q
                 \<and> sent_data sf = new @ sent_data st2 \<and> q \<notin> fst ` set new"
    using k by blast
next
  assume "j < next_to_send u \<and> j \<noteq> 0 \<and> j \<le> cfg_total_segs c \<and> \<not> acked u ! unat j
            \<and> tx_cnt u ! unat j < cfg_retries c \<and> unat j < length (tx_cnt u)"
  then show "\<exists>new. sent_data (iter_state (retransmit rnd c t' j u))
                    = new @ (if timed_out rnd c t' (sent_ts u ! unat j) then [data_pkt c j] else [])
                        @ sent_data u
                 \<and> j \<notin> fst ` set new
                 \<and> tx_cnt (iter_state (retransmit rnd c t' j u)) ! unat j
                    = tx_cnt u ! unat j
                      + (if timed_out rnd c t' (sent_ts u ! unat j) then 1 else 0)"
    by (intro retransmit_resends) simp_all
qed

lemma send_new_step:
  "next_to_send st \<le> cfg_total_segs c \<Longrightarrow> sint (next_to_send st - base st) < cfg_win c
    \<Longrightarrow> send_new c e st = send_new c e (transmit_new c e st)"
  by (subst send_new.simps) simp

lemma send_new_stop:
  "\<not> (next_to_send st \<le> cfg_total_segs c \<and> sint (next_to_send st - base st) < cfg_win c)
    \<Longrightarrow> send_new c e st = Some st"
  by (subst send_new.simps) (simp only: if_False)

lemma ack_upto_step:
  "s \<le> cum \<Longrightarrow> s \<le> N \<Longrightarrow> ack_upto N cum s st = ack_upto N cum (s + 1) (mark_acked s st)"
  by (subst ack_upto.simps) simp

lemma ack_upto_stop: "\<not> (s \<le> cum \<and> s \<le> N) \<Longrightarrow> ack_upto N cum s st = Some st"
  by (subst ack_upto.simps) (simp only: if_False)

lemma slide_base_step:
  "base st \<le> N \<Longrightarrow> acked st ! unat (base st)
    \<Longrightarrow> slide_base N st = slide_base N (st\<lparr>base := base st + 1\<rparr>)"
  by (subst slide_base.simps) simp

lemma ack_masked_zero: "ack_masked N cum 0 st = st"
  unfolding ack_masked_def by (rule ack_fold_noop) simp

lemma retransmit_stop: "\<not> s < next_to_send st \<Longrightarrow> retransmit rnd c t s st = Running st"
  by (subst retransmit.simps) simp

lemma retransmit_fail:
  "s < next_to_send st \<Longrightarrow> s \<noteq> 0 \<Longrightarrow> s \<le> cfg_total_segs c \<Longrightarrow> \<not> acked st ! unat s
    \<Longrightarrow> cfg_retries c \<le> tx_cnt st ! unat s \<Longrightarrow> retransmit rnd c t s st = Failed st"
  by (subst retransmit.simps) (simp add: not_less[symmetric])

lemma s_init_ex:
  "s_init (ex_conf w r) = \<lparr>acked = [False, False, False], sent_ts = [0, 0, 0],
     tx_cnt = [0, 0, 0], base = 1, next_to_send = 1, in_flight = 0, sent_data = []\<rparr>"
  by (simp add: ex_conf_eval s_init_def numeral_3_eq_3)

lemma data_pkt_ex:
  "data_pkt (ex_conf w r) 1 = (1, 0, 541)" "data_pkt (ex_conf w r) 2 = (2, 541, 541)"
  by (simp_all add: data_pkt_def ex_conf_eval seg_offset_def seg_len_def)

lemma ex_conf_fields:
  "cfg_total_segs (ex_conf w r) = 2" "cfg_win (ex_conf 1 r) = 1" "cfg_retries (ex_conf w r) = r"
  by (simp_all add: ex_conf_eval clamp_win_def)

lemma demo_env_fields:
  "send_ok (demo_env\<lparr>rcvd := x\<rparr>) s" "send_time (demo_env\<lparr>rcvd := x\<rparr>) s = 1"
  "now (demo_env\<lparr>rcvd := x\<rparr>) = 1" "rcvd (demo_env\<lparr>rcvd := x\<rparr>) = x"
  "send_ok demo_env s" "send_time demo_env s = 1" "now demo_env = 1" "rcvd demo_env = None"
  by (simp_all add: demo_env_def)

lemma send_new_ex1:
  "send_new (ex_conf 1 r) (demo_env\<lparr>rcvd := x\<rparr>) (s_init (ex_conf 1 r)) = Some ex_sent1"
  "send_new (ex_conf 1 r) demo_env (s_init (ex_conf 1 r)) = Some ex_sent1"
  by (simp_all add: s_init_ex send_new_step send_new_stop transmit_new_def data_pkt_ex ex_sent1_def
      ex_conf_fields demo_env_fields)

lemma send_new_ex2:
  "send_new (ex_conf 1 r) (demo_env\<lparr>rcvd := x\<rparr>)
      (ex_sent1\<lparr>acked := [False, True, False], base := 2, in_flight := 0\<rparr>)
    = Some \<lparr>acked = [False, True, False], sent_ts = [0, 1, 1], tx_cnt = [0, 1, 1],
        base = 2, next_to_send = 3, in_flight = 1, sent_data = [(2, 541, 541), (1, 0, 541)]\<rparr>"
  by (simp add: send_new_step send_new_stop transmit_new_def data_pkt_ex ex_sent1_def
      ex_conf_fields demo_env_fields)

lemma process_ack_ex1:
  "process_ack 2 1 0 ex_sent1
     = Some (ex_sent1\<lparr>acked := [False, True, False], base := 2, in_flight := 0\<rparr>)"
  by (simp add: process_ack_def ack_upto_step ack_upto_stop slide_base_step slide_base_noop
      ack_masked_zero mark_acked_def ex_sent1_def word_le_nat_alt)

lemma process_ack_ex2:
  "process_ack 2 2 0 \<lparr>acked = [False, True, False], sent_ts = [0, 1, 1], tx_cnt = [0, 1, 1],
        base = 2, next_to_send = 3, in_flight = 1, sent_data = [(2, 541, 541), (1, 0, 541)]\<rparr>
     = Some \<lparr>acked = [False, True, True], sent_ts = [0, 1, 1], tx_cnt = [0, 1, 1],
        base = 3, next_to_send = 3, in_flight = 0, sent_data = [(2, 541, 541), (1, 0, 541)]\<rparr>"
  by (simp add: process_ack_def ack_upto_step ack_upto_stop slide_base_step slide_base_noop
      ack_masked_zero mark_acked_def word_le_nat_alt)

lemma process_ack_ex3:
  "process_ack 2 2 0 ex_sent1
     = Some (ex_sent1\<lparr>acked := [False, True, True], base := 3, in_flight := 0\<rparr>)"
  by (simp add: process_ack_def ack_upto_step ack_upto_stop slide_base_step slide_base_noop
      ack_masked_zero mark_acked_def ex_sent1_def word_le_nat_alt)

lemma sender_recv_packet:
  assumes "rcvd e = Some (ack_packet cum m)"
  shows "sender_recv c e st = process_ack (cfg_total_segs c) cum m st"
  using sender_recv_ack[OF assms, of c st] by (simp add: ack_packet_decode)

lemma all_1_2:
  "(\<forall>k :: nat. Suc 0 \<le> k \<and> k \<le> 2 \<and> P k \<longrightarrow> Q k) \<longleftrightarrow> (P 1 \<longrightarrow> Q 1) \<and> (P 2 \<longrightarrow> Q 2)"
proof
  assume "\<forall>k. Suc 0 \<le> k \<and> k \<le> 2 \<and> P k \<longrightarrow> Q k"
  then show "(P 1 \<longrightarrow> Q 1) \<and> (P 2 \<longrightarrow> Q 2)"
    by simp
next
  assume a: "(P 1 \<longrightarrow> Q 1) \<and> (P 2 \<longrightarrow> Q 2)"
  show "\<forall>k. Suc 0 \<le> k \<and> k \<le> 2 \<and> P k \<longrightarrow> Q k"
  proof (intro allI impI)
    fix k :: nat assume k: "Suc 0 \<le> k \<and> k \<le> 2 \<and> P k"
    then have "k = 1 \<or> k = 2"
      by arith
    then show "Q k"
      using a k by auto
  qed
qed

lemma sender_iter_ex1:
  "sender_iter rnd (ex_conf 1 r) (demo_env\<lparr>rcvd := Some (ack_packet 1 0)\<rparr>) (s_init (ex_conf 1 r))
     = Some (Running (ex_sent1\<lparr>acked := [False, True, False], base := 2, in_flight := 0\<rparr>))"
  by (simp add: sender_iter_def send_new_ex1 sender_recv_packet ex_conf_fields process_ack_ex1
      demo_env_fields)
    (simp add: ex_sent1_def retransmit_stop word_less_nat_alt)

lemma sender_iter_ex2:
  "sender_iter rnd (ex_conf 1 r) (demo_env\<lparr>rcvd := Some (ack_packet 2 0)\<rparr>)
      (ex_sent1\<lparr>acked := [False, True, False], base := 2, in_flight := 0\<rparr>)
     = Some (Running \<lparr>acked = [False, True, True], sent_ts = [0, 1, 1], tx_cnt = [0, 1, 1],
        base = 3, next_to_send = 3, in_flight = 0, sent_data = [(2, 541, 541), (1, 0, 541)]\<rparr>)"
  by (simp add: sender_iter_def send_new_ex2 sender_recv_packet ex_conf_fields process_ack_ex2
      demo_env_fields retransmit_stop word_less_nat_alt)

lemma sender_iter_ex3:
  "sender_iter rnd (ex_conf 1 r) (demo_env\<lparr>rcvd := Some (ack_packet 2 0)\<rparr>) (s_init (ex_conf 1 r))
     = Some (Running (ex_sent1\<lparr>acked := [False, True, True], base := 3, in_flight := 0\<rparr>))"
  by (simp add: sender_iter_def send_new_ex1 sender_recv_packet ex_conf_fields process_ack_ex3
      demo_env_fields)
    (simp add: ex_sent1_def retransmit_stop word_less_nat_alt)

lemma retransmit_ex:
  assumes "r \<le> 1"
  shows "retransmit rnd (ex_conf 1 r) t 1 ex_sent1 = Failed ex_sent1"
  using assms by (intro retransmit_fail) (simp_all add: ex_sent1_def ex_conf_fields)

lemma sender_iter_ex4:
  assumes "r \<le> 1"
  shows "sender_iter rnd (ex_conf 1 r) demo_env (s_init (ex_conf 1 r)) = Some (Failed ex_sent1)"
  using retransmit_ex[OF assms]
  by (simp add: sender_iter_def send_new_ex1 sender_recv_none demo_env_fields)
    (simp add: ex_sent1_def)

lemma base_s_init: "base (s_init c) = 1"
  by (simp add: s_init_def)

lemma sender_run_ex:
  "sender_run rnd (ex_conf 1 r) (s_init (ex_conf 1 r)) ex_acks
     = Some (AtEnd \<lparr>acked = [False, True, True], sent_ts = [0, 1, 1], tx_cnt = [0, 1, 1],
        base = 3, next_to_send = 3, in_flight = 0, sent_data = [(2, 541, 541), (1, 0, 541)]\<rparr>)"
  by (simp add: ex_acks_def base_s_init sender_iter_ex1 sender_iter_ex2 ex_conf_fields
      word_le_nat_alt)

lemma fair_run_ex:
  "fair_run rnd (ex_conf 1 r) (s_init (ex_conf 1 r)) ex_acks"
proof -
  have 1: "fair_iter (ex_conf 1 r) (demo_env\<lparr>rcvd := Some (ack_packet 1 0)\<rparr>) (s_init (ex_conf 1 r))"
    by (simp add: fair_iter_def send_new_ex1 sender_recv_packet ex_conf_fields process_ack_ex1
        demo_env_fields all_1_2)
      (simp add: ex_sent1_def)
  have 2: "fair_iter (ex_conf 1 r) (demo_env\<lparr>rcvd := Some (ack_packet 2 0)\<rparr>)
      (ex_sent1\<lparr>acked := [False, True, False], base := 2, in_flight := 0\<rparr>)"
    by (simp add: fair_iter_def send_new_ex2 sender_recv_packet ex_conf_fields process_ack_ex2
        demo_env_fields all_1_2)
  show ?thesis
    by (simp add: ex_acks_def base_s_init sender_iter_ex1 sender_iter_ex2 1 2 ex_conf_fields
        word_le_nat_alt)
qed

theorem transmission_counts_witness:
  "cfg_total_segs (ex_conf 1 2) \<noteq> -1 \<and> 1 \<le> cfg_retries (ex_conf 1 2)
   \<and> fair_run no_rounding (ex_conf 1 2) (s_init (ex_conf 1 2)) ex_acks
   \<and> (\<exists>st. sender_run no_rounding (ex_conf 1 2) (s_init (ex_conf 1 2)) ex_acks = Some (AtEnd st)
         \<and> acked st ! 1 \<and> acked st ! 2 \<and> 1 \<le> tx_cnt st ! 1 \<and> tx_cnt st ! 1 \<le> 2
         \<and> 1 \<le> tx_cnt st ! 2 \<and> tx_cnt st ! 2 \<le> 2)
   \<and> (1 :: u32) < next_to_send (ex_sent1\<lparr>tx_cnt := [0, 2, 0]\<rparr>)
   \<and> \<not> acked (ex_sent1\<lparr>tx_cnt := [0, 2, 0]\<rparr>) ! unat (1 :: u32)
   \<and> cfg_retries (ex_conf 1 2) \<le> tx_cnt (ex_sent1\<lparr>tx_cnt := [0, 2, 0]\<rparr>) ! unat (1 :: u32)
   \<and> (\<exists>st' new. retransmit no_rounding (ex_conf 1 2) 2 1 (ex_sent1\<lparr>tx_cnt := [0, 2, 0]\<rparr>)
                 = Failed st'
         \<and> tx_cnt st' ! unat (1 :: u32) = 2
         \<and> sent_data st' = new @ sent_data (ex_sent1\<lparr>tx_cnt := [0, 2, 0]\<rparr>)
         \<and> 1 \<notin> fst ` set new)
   \<and> base (ex_sent1\<lparr>tx_cnt := [0, 2, 0]\<rparr>) \<le> cfg_total_segs (ex_conf 1 2)
   \<and> send_new (ex_conf 1 2) demo_env (ex_sent1\<lparr>tx_cnt := [0, 2, 0]\<rparr>)
       = Some (ex_sent1\<lparr>tx_cnt := [0, 2, 0]\<rparr>)
   \<and> sender_recv (ex_conf 1 2) demo_env (ex_sent1\<lparr>tx_cnt := [0, 2, 0]\<rparr>)
       = Some (ex_sent1\<lparr>tx_cnt := [0, 2, 0]\<rparr>)
   \<and> (\<exists>sf new. sender_run no_rounding (ex_conf 1 2) (ex_sent1\<lparr>tx_cnt := [0, 2, 0]\<rparr>) [demo_env]
                 = Some (Exit1 sf)
         \<and> tx_cnt sf ! unat (1 :: u32) = 2
         \<and> sent_data sf = new @ sent_data (ex_sent1\<lparr>tx_cnt := [0, 2, 0]\<rparr>)
         \<and> 1 \<notin> fst ` set new)
   \<and> tx_cnt ex_sent1 ! unat (1 :: u32) < cfg_retries (ex_conf 1 2)
   \<and> timed_out no_rounding (ex_conf 1 2) 2 (sent_ts ex_sent1 ! unat (1 :: u32))
   \<and> (\<exists>new. sent_data (iter_state (retransmit no_rounding (ex_conf 1 2) 2 1 ex_sent1))
                 = new @ [(1, 0, 541)] @ sent_data ex_sent1
         \<and> 1 \<notin> fst ` set new
         \<and> tx_cnt (iter_state (retransmit no_rounding (ex_conf 1 2) 2 1 ex_sent1)) ! unat (1 :: u32)
             = 2)"
proof -
  let ?c = "ex_conf 1 2" and ?sp = "ex_sent1\<lparr>tx_cnt := [0, 2, 0]\<rparr>"
  let ?X = "\<lparr>acked = [False, True, True], sent_ts = [0, 1, 1], tx_cnt = [0, 1, 1],
        base = 3, next_to_send = 3, in_flight = 0, sent_data = [(2, 541, 541), (1, 0, 541)]\<rparr>"
  have N: "cfg_total_segs ?c \<noteq> -1" and R: "1 \<le> cfg_retries ?c"
    by (simp_all add: ex_conf_fields)
  have n: "unat (cfg_total_segs ?c) = 2" and r: "cfg_retries ?c = 2"
    by (simp_all add: ex_conf_fields)
  have h3: "(1 :: u32) \<le> 1 \<and> 1 < next_to_send ?sp \<and> (1 :: u32) \<noteq> 0
      \<and> 1 \<le> cfg_total_segs ?c \<and> \<not> acked ?sp ! unat (1 :: u32)
      \<and> cfg_retries ?c \<le> tx_cnt ?sp ! unat (1 :: u32)"
    by (simp add: ex_sent1_def ex_conf_fields word_le_nat_alt word_less_nat_alt)
  have sn: "send_new ?c demo_env ?sp = Some ?sp"
    by (rule send_new_stop) (simp add: ex_sent1_def ex_conf_fields)
  have sr: "sender_recv ?c demo_env ?sp = Some ?sp"
    by (simp add: sender_recv_none demo_env_fields)
  have bs: "base ?sp \<le> cfg_total_segs ?c"
    by (simp add: ex_sent1_def ex_conf_fields word_le_nat_alt)
  have h4: "base ?sp \<le> cfg_total_segs ?c \<and> send_new ?c demo_env ?sp = Some ?sp
      \<and> sender_recv ?c demo_env ?sp = Some ?sp
      \<and> base ?sp \<le> 1 \<and> 1 < next_to_send ?sp \<and> (1 :: u32) \<noteq> 0
      \<and> 1 \<le> cfg_total_segs ?c \<and> \<not> acked ?sp ! unat (1 :: u32)
      \<and> cfg_retries ?c \<le> tx_cnt ?sp ! unat (1 :: u32)"
    using sn sr bs h3 by (simp add: ex_sent1_def)
  have h5: "1 < next_to_send ex_sent1 \<and> (1 :: u32) \<noteq> 0 \<and> 1 \<le> cfg_total_segs ?c
      \<and> \<not> acked ex_sent1 ! unat (1 :: u32) \<and> tx_cnt ex_sent1 ! unat (1 :: u32) < cfg_retries ?c
      \<and> unat (1 :: u32) < length (tx_cnt ex_sent1)"
    by (simp add: ex_sent1_def ex_conf_fields word_le_nat_alt word_less_nat_alt)
  have to: "timed_out no_rounding ?c 2 (sent_ts ex_sent1 ! unat (1 :: u32))"
    by (simp add: timed_out_def no_rounding_def ex_sent1_def ex_conf_eval)
  have tx1: "tx_cnt ex_sent1 ! unat (1 :: u32) = 1" and tx2: "tx_cnt ?sp ! unat (1 :: u32) = 2"
    by (simp_all add: ex_sent1_def)
  note t = transmission_counts[OF N R, where rnd = no_rounding and es = ex_acks and s = 1
      and k = 1 and st = ?sp and t = 2 and st0 = ?sp and e = demo_env and ?st1.0 = ?sp
      and ?st2.0 = ?sp and q = 1 and es' = "[]" and j = 1 and u = ex_sent1 and t' = 2]
  note t1 = t[THEN conjunct1]
    and t3 = t[THEN conjunct2, THEN conjunct1, THEN mp, OF h3]
    and t4 = t[THEN conjunct2, THEN conjunct2, THEN conjunct1, THEN mp, OF h4]
    and t5 = t[THEN conjunct2, THEN conjunct2, THEN conjunct2, THEN mp, OF h5]
  have fair: "fair_run no_rounding ?c (s_init ?c) ex_acks"
    by (rule fair_run_ex)
  obtain res where H: "sender_run no_rounding ?c (s_init ?c) ex_acks = Some res
         \<and> (\<forall>k. k \<le> unat (cfg_total_segs ?c) \<longrightarrow> tx_cnt (final_state res) ! k \<le> cfg_retries ?c)
         \<and> (\<forall>st. res = AtEnd st \<longrightarrow>
               (\<forall>k. 1 \<le> k \<and> k \<le> unat (cfg_total_segs ?c) \<longrightarrow> acked st ! k)
               \<and> (fair_run no_rounding ?c (s_init ?c) ex_acks \<longrightarrow>
                    (\<forall>k. 1 \<le> k \<and> k \<le> unat (cfg_total_segs ?c) \<longrightarrow> 1 \<le> tx_cnt st ! k)))"
    using t1 by (elim exE) (rule that)
  have "Some res = Some (AtEnd ?X)"
    using H[THEN conjunct1] by (simp only: sender_run_ex)
  then have res: "res = AtEnd ?X"
    by (simp only: option.inject)
  have le: "\<forall>k. k \<le> 2 \<longrightarrow> tx_cnt (final_state res) ! k \<le> 2"
    using H[THEN conjunct2, THEN conjunct1] by (simp only: n r)
  note E = H[THEN conjunct2, THEN conjunct2, rule_format, OF res]
  have ak: "\<forall>k. 1 \<le> k \<and> k \<le> 2 \<longrightarrow> acked ?X ! k"
    using E[THEN conjunct1] by (simp only: n)
  have ge: "\<forall>k. 1 \<le> k \<and> k \<le> 2 \<longrightarrow> 1 \<le> tx_cnt ?X ! k"
    using E[THEN conjunct2, THEN mp, OF fair] by (simp only: n)
  have "acked ?X ! 1" "acked ?X ! 2"
    using ak[rule_format, of 1] ak[rule_format, of 2] by simp_all
  moreover have "1 \<le> tx_cnt ?X ! 1" "1 \<le> tx_cnt ?X ! 2"
    using ge[rule_format, of 1] ge[rule_format, of 2] by simp_all
  moreover have "tx_cnt ?X ! 1 \<le> 2" "tx_cnt ?X ! 2 \<le> 2"
    using le[rule_format, of 1] le[rule_format, of 2] by (simp_all add: res)
  ultimately have 1: "\<exists>st. sender_run no_rounding ?c (s_init ?c) ex_acks = Some (AtEnd st)
         \<and> acked st ! 1 \<and> acked st ! 2 \<and> 1 \<le> tx_cnt st ! 1 \<and> tx_cnt st ! 1 \<le> 2
         \<and> 1 \<le> tx_cnt st ! 2 \<and> tx_cnt st ! 2 \<le> 2"
    using sender_run_ex[of no_rounding 2] by (intro exI[of _ ?X] conjI)
  have 3: "\<exists>st' new. retransmit no_rounding ?c 2 1 ?sp = Failed st'
         \<and> tx_cnt st' ! unat (1 :: u32) = 2
         \<and> sent_data st' = new @ sent_data ?sp \<and> 1 \<notin> fst ` set new"
    using t3 by (simp only: tx2)
  have 5: "\<exists>new. sent_data (iter_state (retransmit no_rounding ?c 2 1 ex_sent1))
                 = new @ [(1, 0, 541)] @ sent_data ex_sent1
         \<and> 1 \<notin> fst ` set new
         \<and> tx_cnt (iter_state (retransmit no_rounding ?c 2 1 ex_sent1)) ! unat (1 :: u32) = 2"
    using t5 by (simp only: to if_True tx1 data_pkt_ex) simp
  have 4: "\<exists>sf new. sender_run no_rounding ?c ?sp [demo_env] = Some (Exit1 sf)
         \<and> tx_cnt sf ! unat (1 :: u32) = 2
         \<and> sent_data sf = new @ sent_data ?sp \<and> 1 \<notin> fst ` set new"
    using t4 by (simp only: tx2)
  show ?thesis
    using N R fair 1 h3 3 bs sn sr 4 h5 to 5 by (intro conjI) simp_all
qed

text \<open>
  Against claim C7 as stated. First, a sender of two segments with a window of 1
  and 50 tries transmits segment 1 and receives an ACK with \<^verbatim>\<open>cum_ack = 2\<close>: both
  segments are marked, the bulk loop ends and END is transmitted next, although
  segment 2 was never transmitted (\<^verbatim>\<open>tx_cnt[2] = 0\<close>). Second, with \<^verbatim>\<open>--retries 0\<close> the
  sender transmits segment 1, so that \<^verbatim>\<open>tx_cnt[1] = 1\<close> exceeds \<^verbatim>\<open>retries\<close>, before the scan
  ends in \<^verbatim>\<open>exit(1)\<close>.
\<close>

theorem transmission_counts_counterexample:
  "sender_run no_rounding (ex_conf 1 50) (s_init (ex_conf 1 50))
       [demo_env\<lparr>rcvd := Some (ack_packet 2 0)\<rparr>]
     = Some (AtEnd (ex_sent1\<lparr>acked := [False, True, True], base := 3, in_flight := 0\<rparr>))
   \<and> cfg_total_segs (ex_conf 1 50) = 2
   \<and> tx_cnt (ex_sent1\<lparr>acked := [False, True, True], base := 3, in_flight := 0\<rparr>) ! 2 = 0
   \<and> sender_run no_rounding (ex_conf 1 0) (s_init (ex_conf 1 0)) [demo_env]
     = Some (Exit1 ex_sent1)
   \<and> cfg_retries (ex_conf 1 0) < tx_cnt ex_sent1 ! 1"
  by (simp add: base_s_init sender_iter_ex3 sender_iter_ex4 ex_conf_fields word_le_nat_alt)
    (simp add: ex_sent1_def)

end
